theory Spec2Isabelle
  imports Main "HOL-Library.Word" "HOL-Library.Multiset" "HOL-Library.AList"
begin

unbundle bit_operations_syntax

section \<open>Data model of package mph\<close>

text \<open>
  The Go package builds a hash/displace minimal perfect hash table over 64-bit
  fingerprints (\<open>NewUint64\<close>) and looks ordinals up in it (\<open>Query\<close>).

  \<^item> \<open>uint64\<close> is \<open>64 word\<close>, \<open>uint32\<close> and \<open>int32\<close> are \<open>32 word\<close>
    (\<open>sint\<close> reads an \<open>int32\<close>); \<open>+\<close>, \<open>-\<close>, \<open>*\<close> wrap as in Go.
  \<^item> \<open>int\<close> (64 bit) only holds slice lengths and indices here; it is \<open>nat\<close>.
  \<^item> An index outside a slice panics in Go; the model returns
    \<open>Inl IndexOutOfRange\<close> there.
  \<^item> The three errors of \<open>NewUint64\<close> all wrap \<open>ErrCouldNotBuildTable\<close> and
    differ in their message; the model gives each its own constructor.
\<close>

datatype error =
    TooManyKeys
  | DuplicateHash "64 word"
  | NoSeed
  | IndexOutOfRange

record Table =
  Values :: "32 word list"
  Seeds :: "32 word list"
  Mask :: "64 word"

definition singletonBit :: "32 word" where
  "singletonBit = push_bit 31 1"

definition payloadMask :: "32 word" where
  "payloadMask = NOT singletonBit"

record entry =
  idx :: "32 word"
  hash :: "64 word"

section \<open>Mixing function and table size\<close>

definition xorshiftMult64 :: "64 word \<Rightarrow> 64 word" where
  "xorshiftMult64 x0 =
     (let x1 = x0 XOR drop_bit 12 x0;
          x2 = x1 XOR push_bit 25 x1;
          x3 = x2 XOR drop_bit 27 x2
      in x3 * 2685821657736338717)"

text \<open>
  \<open>nextPower2\<close>: \<open>i := 1; for i < n { i <<= 1 }\<close>. The counter starts at 1 and only
  doubles, so it is positive throughout; the guard \<open>0 < i\<close> records that and
  gives the termination measure. \<open>NewUint64\<close> calls it with \<open>n \<le> 2^31\<close>, far from
  the overflow of a 64-bit \<open>int\<close>.
\<close>

function nextPower2_loop :: "nat \<Rightarrow> nat \<Rightarrow> nat" where
  "nextPower2_loop i n = (if 0 < i \<and> i < n then nextPower2_loop (i * 2) n else i)"
  by pat_completeness auto
termination
  by (relation "measure (\<lambda>(i, n). n - i)") auto

declare nextPower2_loop.simps [simp del]

definition nextPower2 :: "nat \<Rightarrow> nat" where
  "nextPower2 n = nextPower2_loop 1 n"

section \<open>Duplicate check\<close>

text \<open>
  The scan over the sorted copy \<open>tmp\<close>: \<open>for i := 1; i < len(tmp); i++\<close>, returning
  \<open>tmp[i]\<close> at the first \<open>tmp[i] == tmp[i-1]\<close>.
\<close>

fun find_dup :: "64 word list \<Rightarrow> 64 word option" where
  "find_dup (a # b # xs) = (if b = a then Some b else find_dup (b # xs))"
| "find_dup xs = None"

section \<open>Bucketer\<close>

text \<open>
  \<open>for idx, k := range keys { i := int(hash & mask); h[i] = append(h[i], entry{int32(idx)+1, hash}) }\<close>.
  The loop counter is \<open>n\<close> here, since \<open>idx\<close> names the field.
\<close>

fun fill_buckets :: "64 word \<Rightarrow> nat \<Rightarrow> 64 word list \<Rightarrow> entry list list \<Rightarrow> error + entry list list" where
  "fill_buckets msk n [] h = Inr h"
| "fill_buckets msk n (k # ks) h =
     (let i = unat (k AND msk) in
      if i < length h
      then fill_buckets msk (n + 1) ks (h[i := h ! i @ [\<lparr>idx = of_nat n + 1, hash = k\<rparr>]])
      else Inl IndexOutOfRange)"

section \<open>Seed solver\<close>

text \<open>
  The scratch map \<open>entries : map[uint64]int32\<close> is an association list with
  distinct keys; reading a missing key gives 0, as in Go.
\<close>

definition map_get :: "(64 word \<times> 32 word) list \<Rightarrow> 64 word \<Rightarrow> 32 word" where
  "map_get m k = (case map_of m k of None \<Rightarrow> 0 | Some v \<Rightarrow> v)"

text \<open>
  One pass of \<open>for _, k := range subkeys\<close> for a candidate seed. \<open>Inr None\<close> is the
  collision branch (clear the scratch map, \<open>continue newseed\<close>); \<open>Inr (Some entries)\<close>
  is reaching \<open>break\<close> with the scratch map filled.
\<close>

fun try_seed :: "64 word \<Rightarrow> 32 word list \<Rightarrow> 64 word \<Rightarrow> entry list \<Rightarrow>
    (64 word \<times> 32 word) list \<Rightarrow> error + (64 word \<times> 32 word) list option" where
  "try_seed msk values seed [] entries = Inr (Some entries)"
| "try_seed msk values seed (k # ks) entries =
     (let i = xorshiftMult64 (hash k + seed) AND msk in
      if map_get entries i = 0
      then (if unat i < length values
            then (if values ! unat i = 0
                  then try_seed msk values seed ks (AList.update i (idx k) entries)
                  else Inr None)
            else Inl IndexOutOfRange)
      else Inr None)"

text \<open>
  The \<open>newseed\<close> loop: \<open>seed++\<close>, fail at \<open>seed >= 1 << 31\<close>, otherwise try the seed
  on an empty scratch map.
\<close>

function seed_search :: "64 word \<Rightarrow> 32 word list \<Rightarrow> entry list \<Rightarrow> 64 word \<Rightarrow>
    error + (64 word \<times> (64 word \<times> 32 word) list)" where
  "seed_search msk values subkeys seed =
     (let seed' = seed + 1 in
      if seed' \<ge> 2 ^ 31 then Inl NoSeed
      else (case try_seed msk values seed' subkeys [] of
              Inl e \<Rightarrow> Inl e
            | Inr (Some entries) \<Rightarrow> Inr (seed', entries)
            | Inr None \<Rightarrow> seed_search msk values subkeys seed'))"
  by pat_completeness auto
termination
proof (relation "measure (\<lambda>(msk, values, subkeys, seed). unat (2 ^ 31 - 1 - seed))", goal_cases)
  case 1
  show ?case by simp
next
  case (2 msk vals subkeys seed x)
  define w :: "64 word" where "w = 2 ^ 31 - 1 - seed"
  have ne: "w \<noteq> 0"
    using 2 unfolding w_def by auto
  have eq: "2 ^ 31 - 1 - x = w - 1"
    using 2 unfolding w_def by simp
  have "unat (w - 1) = unat w - 1"
    by (rule unat_minus_one [OF ne])
  moreover have "unat w \<noteq> 0"
    using ne by (simp add: unat_eq_zero)
  ultimately have "unat (w - 1) < unat w"
    by arith
  then have "unat (2 ^ 31 - 1 - x) < unat w"
    by (simp only: eq)
  then show ?case
    by (simp add: w_def)
qed

declare seed_search.simps [simp del]

text \<open>
  \<open>for k, v := range entries { values[int(k)] = v }\<close>. Go ranges over a map in an
  order of its own choosing, which may differ from run to run; \<open>commit\<close> takes the
  pairs in the order they are visited.
\<close>

fun commit :: "(64 word \<times> 32 word) list \<Rightarrow> 32 word list \<Rightarrow> error + 32 word list" where
  "commit [] values = Inr values"
| "commit ((k, v) # es) values =
     (if unat k < length values then commit es (values[unat k := v])
      else Inl IndexOutOfRange)"

text \<open>
  The loop \<open>for hidx = 0; hidx < len(h) && len(h[hidx]) > 1; hidx++\<close> over the
  sorted buckets. It returns the buckets from \<open>hidx\<close> on together with \<open>values\<close>
  and \<open>seeds\<close>. The parameter \<open>ord\<close> is the order in which \<open>range entries\<close> visits
  the scratch map.
\<close>

fun solve_buckets :: "((64 word \<times> 32 word) list \<Rightarrow> (64 word \<times> 32 word) list) \<Rightarrow> 64 word \<Rightarrow>
    entry list list \<Rightarrow> 32 word list \<Rightarrow> 32 word list \<Rightarrow>
    error + (entry list list \<times> 32 word list \<times> 32 word list)" where
  "solve_buckets ord msk [] values seeds = Inr ([], values, seeds)"
| "solve_buckets ord msk (subkeys # rest) values seeds =
     (if length subkeys > 1
      then (case seed_search msk values subkeys 0 of
              Inl e \<Rightarrow> Inl e
            | Inr (seed, entries) \<Rightarrow>
                (case commit (ord entries) values of
                   Inl e \<Rightarrow> Inl e
                 | Inr values' \<Rightarrow>
                     (let i = unat (hash (hd subkeys) AND msk) in
                      if i < length seeds
                      then solve_buckets ord msk rest values' (seeds[i := ucast seed])
                      else Inl IndexOutOfRange)))
      else Inr (subkeys # rest, values, seeds))"

section \<open>Singleton allocator\<close>

text \<open>
  \<open>for i := range values { if values[i] == 0 { free = append(free, i) } else { values[i]-- } }\<close>,
  started at index \<open>i\<close>.
\<close>

fun collect_free :: "nat \<Rightarrow> 32 word list \<Rightarrow> nat list \<times> 32 word list" where
  "collect_free i [] = ([], [])"
| "collect_free i (v # vs) =
     (let (free, vs') = collect_free (i + 1) vs in
      if v = 0 then (i # free, v # vs') else (free, (v - 1) # vs'))"

text \<open>
  \<open>for ; hidx < len(h) && len(h[hidx]) > 0; hidx++\<close>: pop \<open>free[0]\<close> (a panic on an
  empty free-list), store the ordinal there and a singleton descriptor at the home
  slot.
\<close>

fun place_singletons :: "64 word \<Rightarrow> entry list list \<Rightarrow> nat list \<Rightarrow> 32 word list \<Rightarrow> 32 word list \<Rightarrow>
    error + (32 word list \<times> 32 word list)" where
  "place_singletons msk [] free values seeds = Inr (values, seeds)"
| "place_singletons msk (b # rest) free values seeds =
     (if length b > 0
      then (case free of
              [] \<Rightarrow> Inl IndexOutOfRange
            | dst # free' \<Rightarrow>
                (let k = hd b; i = unat (hash k AND msk) in
                 if dst < length values \<and> i < length seeds
                 then place_singletons msk rest free' (values[dst := idx k - 1])
                        (seeds[i := singletonBit OR of_nat dst])
                 else Inl IndexOutOfRange))
      else Inr (values, seeds))"

section \<open>NewUint64 and Query\<close>

text \<open>
  \<open>sort.Slice\<close> is library code. On the copy \<open>tmp\<close> of the keys, ordered by \<open><\<close>,
  its result is the sorted list, whatever it does with equal elements: \<open>sort\<close>. On
  the buckets it is called with \<open>less(i, j) = len(h[i]) > len(h[j])\<close> and is not
  guaranteed to be stable; it is the parameter \<open>sorter\<close>, and \<open>sort_contract\<close> is what
  the library promises: a permutation in which no bucket comes before a larger one.
  \<open>range_contract\<close> is what Go promises of \<open>range\<close> over a map: every pair once.
\<close>

definition sort_contract :: "(entry list list \<Rightarrow> entry list list) \<Rightarrow> bool" where
  "sort_contract sorter \<longleftrightarrow>
     (\<forall>h. mset (sorter h) = mset h \<and> sorted_wrt (\<lambda>a b. length a \<ge> length b) (sorter h))"

definition range_contract :: "((64 word \<times> 32 word) list \<Rightarrow> (64 word \<times> 32 word) list) \<Rightarrow> bool" where
  "range_contract ord \<longleftrightarrow> (\<forall>m. mset (ord m) = mset m)"

definition build_mask :: "64 word list \<Rightarrow> 64 word" where
  "build_mask keys = of_nat (nextPower2 (length keys)) - 1"

text \<open>The part of \<open>NewUint64\<close> from the allocation of \<open>h\<close>, \<open>values\<close>, \<open>seeds\<close> to the end
  of the multi-key loop.\<close>

definition solve_phase :: "(entry list list \<Rightarrow> entry list list) \<Rightarrow>
    ((64 word \<times> 32 word) list \<Rightarrow> (64 word \<times> 32 word) list) \<Rightarrow> 64 word list \<Rightarrow>
    error + (entry list list \<times> 32 word list \<times> 32 word list)" where
  "solve_phase sorter ord keys =
     (let size = of_nat (nextPower2 (length keys)) :: 64 word;
          msk = size - 1;
          n = unat size
      in case fill_buckets msk 0 keys (replicate n []) of
           Inl e \<Rightarrow> Inl e
         | Inr h \<Rightarrow> solve_buckets ord msk (sorter h) (replicate n 0) (replicate n 0))"

definition NewUint64 :: "(entry list list \<Rightarrow> entry list list) \<Rightarrow>
    ((64 word \<times> 32 word) list \<Rightarrow> (64 word \<times> 32 word) list) \<Rightarrow> 64 word list \<Rightarrow> error + Table" where
  "NewUint64 sorter ord keys =
     (if length keys = 0 then Inr \<lparr>Values = [], Seeds = [], Mask = 0\<rparr>
      else if length keys > 2 ^ 31 then Inl TooManyKeys
      else (case find_dup (sort keys) of
              Some d \<Rightarrow> Inl (DuplicateHash d)
            | None \<Rightarrow>
                (case solve_phase sorter ord keys of
                   Inl e \<Rightarrow> Inl e
                 | Inr (rest, values, seeds) \<Rightarrow>
                     (let (free, values') = collect_free 0 values in
                      case place_singletons (build_mask keys) rest free values' seeds of
                        Inl e \<Rightarrow> Inl e
                      | Inr (values'', seeds') \<Rightarrow>
                          Inr \<lparr>Values = values'', Seeds = seeds', Mask = build_mask keys\<rparr>))))"

text \<open>
  \<open>Query\<close>, with the slot it reads \<open>Values\<close> at as a function of its own
  (\<open>query_slot\<close>): the singleton payload or the recomputed displaced slot.
\<close>

definition query_slot :: "Table \<Rightarrow> 64 word \<Rightarrow> error + nat" where
  "query_slot t h =
     (let i = unat (h AND Mask t) in
      if i < length (Seeds t)
      then (let s = Seeds t ! i in
            if s AND singletonBit \<noteq> 0
            then Inr (unat (s AND payloadMask))
            else (let seed = ucast (s AND payloadMask) :: 64 word
                  in Inr (unat (xorshiftMult64 (h + seed) AND Mask t))))
      else Inl IndexOutOfRange)"

definition Query :: "Table \<Rightarrow> 64 word \<Rightarrow> error + 32 word" where
  "Query t h =
     (if length (Values t) = 0 then Inr (- 1)
      else (case query_slot t h of
              Inl e \<Rightarrow> Inl e
            | Inr j \<Rightarrow> if j < length (Values t) then Inr (Values t ! j) else Inl IndexOutOfRange))"

text \<open>
  Instances of the parameters, for running the model: a stable insertion sort by
  descending bucket size (what \<open>sort.Slice\<close> does on a slice of fewer than 12
  elements), and a map range in insertion order and one in the reverse of it.
\<close>

definition stable_sorter :: "entry list list \<Rightarrow> entry list list" where
  "stable_sorter h = sort_key (\<lambda>b. - int (length b)) h"

definition insertion_order :: "(64 word \<times> 32 word) list \<Rightarrow> (64 word \<times> 32 word) list" where
  "insertion_order m = m"

definition reverse_order :: "(64 word \<times> 32 word) list \<Rightarrow> (64 word \<times> 32 word) list" where
  "reverse_order m = rev m"

section \<open>Notions used in the statements\<close>

text \<open>The home slot \<open>hash & mask\<close> of an entry, as a slice index.\<close>

definition home :: "64 word \<Rightarrow> entry \<Rightarrow> nat" where
  "home msk e = unat (hash e AND msk)"

text \<open>The displaced slot \<open>xorshiftMult64(k.hash+seed) & mask\<close> of an entry.\<close>

definition slot_of :: "64 word \<Rightarrow> 64 word \<Rightarrow> entry \<Rightarrow> 64 word" where
  "slot_of msk seed e = xorshiftMult64 (hash e + seed) AND msk"

text \<open>
  What the design asks of an accepted seed, in its own words: the members' displaced
  slots are pairwise distinct and none is permanently occupied.
\<close>

definition seed_ok :: "64 word \<Rightarrow> 32 word list \<Rightarrow> entry list \<Rightarrow> 64 word \<Rightarrow> bool" where
  "seed_ok msk values subkeys seed \<longleftrightarrow>
     distinct (map (slot_of msk seed) subkeys) \<and>
     (\<forall>e\<in>set subkeys. values ! unat (slot_of msk seed e) = 0)"

text \<open>The entries the bucketer creates from position \<open>n\<close> on: ordinal plus one, and the key.\<close>

definition entries_from :: "nat \<Rightarrow> 64 word list \<Rightarrow> entry list" where
  "entries_from n keys = map (\<lambda>(j, k). \<lparr>idx = of_nat j + 1, hash = k\<rparr>) (enumerate n keys)"

text \<open>The slot of \<open>values\<close> that a lookup of \<open>h\<close> reads, given \<open>seeds\<close> and the mask.\<close>

definition qslot :: "64 word \<Rightarrow> 32 word list \<Rightarrow> 64 word \<Rightarrow> nat" where
  "qslot msk seeds h =
     (let s = seeds ! unat (h AND msk) in
      if s AND singletonBit \<noteq> 0 then unat (s AND payloadMask)
      else unat (xorshiftMult64 (h + ucast (s AND payloadMask)) AND msk))"

text \<open>
  The construction invariant for a table of \<open>2 ^ k\<close> slots: every entry of \<open>P\<close> has a
  non-zero \<open>idx\<close> and is found by a lookup (its stored value is \<open>idx - off\<close>, with
  \<open>off = 0\<close> before the decrement and \<open>1\<close> after), every non-zero slot belongs to
  an entry of \<open>P\<close>, and every singleton descriptor points into the table.
\<close>

definition placed :: "nat \<Rightarrow> 32 word \<Rightarrow> entry set \<Rightarrow> 32 word list \<Rightarrow> 32 word list \<Rightarrow> bool" where
  "placed k off P values seeds \<longleftrightarrow>
     length values = 2 ^ k \<and> length seeds = 2 ^ k \<and>
     (\<forall>e\<in>P. idx e \<noteq> 0 \<and> qslot (mask k) seeds (hash e) < 2 ^ k \<and>
            values ! qslot (mask k) seeds (hash e) = idx e - off) \<and>
     (\<forall>j<2 ^ k. values ! j \<noteq> 0 \<longrightarrow> (\<exists>e\<in>P. qslot (mask k) seeds (hash e) = j)) \<and>
     (\<forall>j<2 ^ k. seeds ! j AND singletonBit \<noteq> 0 \<longrightarrow> unat (seeds ! j AND payloadMask) < 2 ^ k)"

text \<open>The buckets as the bucketer leaves them: bucket \<open>i\<close> holds the entries with home
  slot \<open>i\<close>, in input order.\<close>

definition bucket_table :: "64 word \<Rightarrow> nat \<Rightarrow> entry list \<Rightarrow> entry list list" where
  "bucket_table msk n es = map (\<lambda>i. filter (\<lambda>e. home msk e = i) es) [0..<n]"

section \<open>Machine words\<close>

lemma slot_lt: "unat ((x :: 64 word) AND mask k) < 2 ^ k"
  by (metis and_mask_lt_2p of_nat_less_numeral_power_cancel_iff of_nat_unat)

lemma unat_size: "k \<le> 31 \<Longrightarrow> unat (of_nat (2 ^ k) :: 64 word) = 2 ^ k"
proof -
  assume "k \<le> 31"
  then have lt: "(2::nat) ^ k < 2 ^ 64"
    by (intro power_strict_increasing) auto
  have "unat (of_nat (2 ^ k) :: 64 word) = 2 ^ k mod 2 ^ LENGTH(64)"
    by (rule unat_of_nat)
  with lt show ?thesis
    by simp
qed

lemma size_minus_1: "(of_nat (2 ^ k) :: 64 word) - 1 = mask k"
  by (simp add: mask_eq_exp_minus_1)

lemma idx_nonzero: "i < 2 ^ 31 \<Longrightarrow> (of_nat i + 1 :: 32 word) \<noteq> 0"
proof -
  assume i: "i < 2 ^ 31"
  have "unat (of_nat (Suc i) :: 32 word) = Suc i mod 2 ^ LENGTH(32)"
    by (rule unat_of_nat)
  with i have u: "unat (of_nat (Suc i) :: 32 word) = Suc i"
    by (simp del: of_nat_Suc)
  have "(of_nat (Suc i) :: 32 word) \<noteq> 0"
  proof
    assume "(of_nat (Suc i) :: 32 word) = 0"
    then have "unat (of_nat (Suc i) :: 32 word) = 0"
      by (simp only: unat_0)
    with u show False by simp
  qed
  then show ?thesis
    by (simp add: add.commute)
qed

lemma sint_ordinal: "i < 2 ^ 31 \<Longrightarrow> sint (of_nat i :: 32 word) = int i"
  by (simp add: signed_of_nat signed_take_bit_int_eq_self)

lemma nat_bit_high: "(d::nat) < 2 ^ n \<Longrightarrow> \<not> bit d n"
  by (metis bit_take_bit_iff take_bit_nat_eq_self less_irrefl)

lemma of_nat_bit31: "d < 2 ^ 31 \<Longrightarrow> \<not> bit (of_nat d :: 32 word) 31"
  by (simp add: bit_of_nat_iff nat_bit_high)

lemma bit_singletonBit: "bit singletonBit n \<longleftrightarrow> n = 31"
  unfolding singletonBit_def bit_push_bit_iff bit_1_iff by auto

lemma bit_payloadMask: "bit payloadMask n \<longleftrightarrow> n < 32 \<and> n \<noteq> 31"
  unfolding payloadMask_def bit_not_iff bit_singletonBit by simp

lemma descriptor_flag: "(singletonBit OR x) AND singletonBit \<noteq> 0"
proof
  assume "(singletonBit OR x) AND singletonBit = 0"
  then have "bit ((singletonBit OR x) AND singletonBit) 31 = bit (0 :: 32 word) 31"
    by simp
  then show False
    by (simp add: bit_and_iff bit_or_iff bit_singletonBit)
qed

lemma descriptor_payload_word:
  "d < 2 ^ 31 \<Longrightarrow> (singletonBit OR of_nat d) AND payloadMask = of_nat d"
proof (rule bit_word_eqI)
  fix n assume d: "d < 2 ^ 31" and "n < LENGTH(32)"
  then show "bit ((singletonBit OR of_nat d) AND payloadMask) n = bit (of_nat d :: 32 word) n"
    using of_nat_bit31 [OF d]
    by (cases "n = 31") (simp_all add: bit_and_iff bit_or_iff bit_singletonBit bit_payloadMask)
qed

lemma descriptor_payload:
  "d < 2 ^ 31 \<Longrightarrow> unat ((singletonBit OR of_nat d) AND payloadMask) = d"
  by (simp add: descriptor_payload_word unat_of_nat)

lemma word_bit_high: "(s :: 64 word) < 2 ^ 31 \<Longrightarrow> 31 \<le> n \<Longrightarrow> \<not> bit s n"
proof -
  assume s: "s < 2 ^ 31" and n: "31 \<le> n"
  have "s AND mask 31 = s"
    using s by (rule less_mask_eq)
  then have "bit s n = bit (s AND mask 31) n"
    by simp
  also have "\<dots> = False"
    using n by (simp add: bit_and_iff bit_mask_iff)
  finally show ?thesis by simp
qed

lemma seed_flag: "(s :: 64 word) < 2 ^ 31 \<Longrightarrow> (ucast s :: 32 word) AND singletonBit = 0"
proof (rule bit_word_eqI)
  fix n assume s: "s < 2 ^ 31" and "n < LENGTH(32)"
  show "bit ((ucast s :: 32 word) AND singletonBit) n = bit (0 :: 32 word) n"
    using word_bit_high [OF s, of 31]
    by (cases "n = 31") (simp_all add: bit_and_iff bit_singletonBit bit_ucast_iff)
qed

lemma seed_payload: "(s :: 64 word) < 2 ^ 31 \<Longrightarrow> (ucast s :: 32 word) AND payloadMask = ucast s"
proof (rule bit_word_eqI)
  fix n assume s: "s < 2 ^ 31" and "n < LENGTH(32)"
  then show "bit ((ucast s :: 32 word) AND payloadMask) n = bit (ucast s :: 32 word) n"
    using word_bit_high [OF s, of 31]
    by (cases "n = 31") (simp_all add: bit_and_iff bit_payloadMask bit_ucast_iff)
qed

lemma seed_roundtrip: "(s :: 64 word) < 2 ^ 31 \<Longrightarrow> (ucast (ucast s :: 32 word) :: 64 word) = s"
proof (rule bit_word_eqI)
  fix n assume s: "s < 2 ^ 31" and "n < LENGTH(64)"
  show "bit (ucast (ucast s :: 32 word) :: 64 word) n = bit s n"
    using word_bit_high [OF s, of n]
    by (cases "n < 31") (auto simp add: bit_ucast_iff)
qed

subsection \<open>The low bit of the mixing function\<close>

lemma int_add_top: "n < 63 \<Longrightarrow> bit (2 ^ 63 + k :: int) n = bit k n"
proof -
  assume n: "n < 63"
  have "take_bit 63 (take_bit 63 (2 ^ 63 :: int) + take_bit 63 k) = take_bit 63 (2 ^ 63 + k)"
    by (rule take_bit_add)
  then have "take_bit 63 (2 ^ 63 + k) = take_bit 63 k"
    by simp
  then have "bit (take_bit 63 (2 ^ 63 + k)) n = bit (take_bit 63 k) n"
    by simp
  then show ?thesis
    using n by (simp add: bit_take_bit_iff)
qed

lemma word_add_top: "n < 63 \<Longrightarrow> bit (2 ^ 63 + s :: 64 word) n = bit s n"
proof -
  assume n: "n < 63"
  have "bit (2 ^ 63 + s :: 64 word) n = bit (uint (2 ^ 63 + s :: 64 word)) n"
    using n by (simp add: bit_uint_iff)
  also have "uint (2 ^ 63 + s :: 64 word) = take_bit LENGTH(64) (uint (2 ^ 63 :: 64 word) + uint s)"
    by (rule uint_word_arith_bintrs)
  also have "bit \<dots> n = bit (2 ^ 63 + uint s) n"
    using n by (simp add: bit_take_bit_iff)
  also have "\<dots> = bit (uint s) n"
    using n by (rule int_add_top)
  also have "\<dots> = bit s n"
    using n by (simp add: bit_uint_iff)
  finally show ?thesis .
qed

lemma mix_parity_cong:
  "(\<forall>n<63. bit x n = bit y n) \<Longrightarrow> odd (xorshiftMult64 x) = odd (xorshiftMult64 y)"
  by (simp add: xorshiftMult64_def Let_def bit_0 [symmetric] bit_xor_iff bit_drop_bit_eq
        bit_push_bit_iff del: bit_0)

lemma and_1_parity: "(w :: 64 word) AND 1 = (if odd w then 1 else 0)"
  by (simp add: and_one_eq mod_2_eq_odd)

lemma mix_low_bit: "xorshiftMult64 (2 ^ 63 + s) AND 1 = xorshiftMult64 s AND 1"
proof -
  have "odd (xorshiftMult64 (2 ^ 63 + s)) = odd (xorshiftMult64 s)"
    by (rule mix_parity_cong) (intro allI impI word_add_top)
  then show ?thesis
    by (simp only: and_1_parity)
qed

section \<open>Table size\<close>

lemma nextPower2_loop_pow:
  "i = 2 ^ k \<Longrightarrow> \<exists>k'. nextPower2_loop i n = 2 ^ k' \<and> n \<le> 2 ^ k' \<and> (k \<le> m \<and> n \<le> 2 ^ m \<longrightarrow> k' \<le> m)"
proof (induction i n arbitrary: k rule: nextPower2_loop.induct)
  case (1 i n)
  show ?case
  proof (cases "0 < i \<and> i < n")
    case True
    have "i * 2 = 2 ^ Suc k"
      using 1(2) by simp
    from 1(1) [OF True this] obtain k' where
      k': "nextPower2_loop (i * 2) n = 2 ^ k'" "n \<le> 2 ^ k'" "Suc k \<le> m \<and> n \<le> 2 ^ m \<longrightarrow> k' \<le> m"
      by blast
    have "k \<le> m \<and> n \<le> 2 ^ m \<longrightarrow> Suc k \<le> m"
    proof
      assume a: "k \<le> m \<and> n \<le> 2 ^ m"
      then have "i < 2 ^ m"
        using True by linarith
      then have "(2::nat) ^ k < 2 ^ m"
        unfolding 1(2) .
      then have "k < m"
        by (rule power_less_imp_less_exp [rotated]) simp
      then show "Suc k \<le> m" by simp
    qed
    with k' True show ?thesis
      by (subst nextPower2_loop.simps) auto
  next
    case False
    then have "n \<le> 2 ^ k"
      using 1(2) by simp
    with False 1(2) show ?thesis
      by (subst nextPower2_loop.simps) auto
  qed
qed

lemma nextPower2_pow:
  assumes "n \<le> 2 ^ 31"
  shows "\<exists>k\<le>31. nextPower2 n = 2 ^ k \<and> n \<le> 2 ^ k"
proof -
  have "(1::nat) = 2 ^ 0" by simp
  from nextPower2_loop_pow [OF this, of n 31] assms show ?thesis
    unfolding nextPower2_def by auto
qed

section \<open>Duplicate check\<close>

lemma find_dup_sorted: "sorted xs \<Longrightarrow> find_dup xs = None \<longleftrightarrow> distinct xs"
proof (induction xs rule: find_dup.induct)
  case (1 a b xs)
  then show ?case by (cases "b = a") auto
qed simp_all

lemma find_dup_Some: "find_dup xs = Some d \<Longrightarrow> d \<in> set xs \<and> \<not> distinct xs"
  by (induction xs rule: find_dup.induct) (auto split: if_splits)

lemma find_dup_sort: "find_dup (sort keys) = None \<longleftrightarrow> distinct keys"
  using find_dup_sorted [of "sort keys"] by simp

section \<open>Committing a bucket\<close>

lemma commit_fold:
  "commit es values =
     (if \<forall>p\<in>set es. unat (fst p) < length values
      then Inr (fold (\<lambda>p vs. vs[unat (fst p) := snd p]) es values)
      else Inl IndexOutOfRange)"
  by (induction es "values" rule: commit.induct) auto

lemma commit_permute:
  assumes "distinct (map fst es)" and "mset es' = mset es"
  shows "commit es' values = commit es values"
proof -
  have set_eq: "set es' = set es"
    using assms(2) by (rule mset_eq_setD)
  have "fold (\<lambda>p vs. vs[unat (fst p) := snd p]) es = fold (\<lambda>p vs. vs[unat (fst p) := snd p]) es'"
  proof (rule fold_multiset_equiv)
    fix x y assume "x \<in> set es" "y \<in> set es"
    show "(\<lambda>vs. vs[unat (fst x) := snd x]) \<circ> (\<lambda>vs. vs[unat (fst y) := snd y]) =
          (\<lambda>vs. vs[unat (fst y) := snd y]) \<circ> (\<lambda>vs. vs[unat (fst x) := snd x])"
    proof (cases "x = y")
      case True
      then show ?thesis by simp
    next
      case False
      with \<open>x \<in> set es\<close> \<open>y \<in> set es\<close> assms(1) have "fst x \<noteq> fst y"
        by (metis distinct_map inj_onD)
      then have "unat (fst x) \<noteq> unat (fst y)"
        by (simp add: word_unat_eq_iff)
      then show ?thesis
        by (auto simp add: fun_eq_iff list_update_swap)
    qed
  next
    show "mset es = mset es'"
      using assms(2) by simp
  qed
  then show ?thesis
    by (simp add: commit_fold set_eq)
qed

lemma try_seed_distinct:
  "try_seed msk values seed ks entries = Inr (Some entries') \<Longrightarrow> distinct (map fst entries) \<Longrightarrow>
   distinct (map fst entries')"
  by (induction ks arbitrary: entries) (auto simp add: Let_def distinct_update split: if_splits)

lemma seed_search_distinct:
  "seed_search msk values subkeys seed = Inr (seed', entries) \<Longrightarrow> distinct (map fst entries)"
proof (induction msk "values" subkeys seed rule: seed_search.induct)
  case (1 msk vals subkeys seed)
  from 1(2) show ?case
    apply (subst (asm) seed_search.simps)
    apply (auto simp add: Let_def split: if_splits sum.splits option.splits dest: try_seed_distinct intro: 1(1))
    done
qed

lemma solve_buckets_range_order:
  assumes "range_contract o1" and "range_contract o2"
  shows "solve_buckets o1 msk bs values seeds = solve_buckets o2 msk bs values seeds"
proof (induction bs arbitrary: "values" seeds)
  case Nil
  show ?case by simp
next
  case (Cons b bs)
  have c: "commit (o1 entries) values = commit (o2 entries) values"
    if "seed_search msk values b 0 = Inr (seed, entries)" for seed entries
  proof -
    have d: "distinct (map fst entries)"
      using that by (rule seed_search_distinct)
    have m: "mset (o1 entries) = mset entries" "mset (o2 entries) = mset entries"
      using assms by (simp_all add: range_contract_def)
    have "commit (o1 entries) values = commit entries values"
      using d m(1) by (rule commit_permute)
    moreover have "commit (o2 entries) values = commit entries values"
      using d m(2) by (rule commit_permute)
    ultimately show ?thesis
      by simp
  qed
  show ?case
    by (auto simp add: Let_def c Cons.IH split: sum.splits prod.splits)
qed

lemma range_contract_insertion_order: "range_contract insertion_order"
  by (simp add: range_contract_def insertion_order_def)

lemma range_contract_reverse_order: "range_contract reverse_order"
  by (simp add: range_contract_def reverse_order_def)

lemma NewUint64_range_order:
  assumes "range_contract o1" and "range_contract o2"
  shows "NewUint64 sorter o1 keys = NewUint64 sorter o2 keys"
proof -
  have e: "solve_phase sorter o1 keys = solve_phase sorter o2 keys"
    unfolding solve_phase_def Let_def
    by (simp add: solve_buckets_range_order [OF assms] split: sum.splits)
  show ?thesis
    unfolding NewUint64_def e by (rule refl)
qed

section \<open>A table of five keys\<close>

text \<open>
  The keys 0, 4, 8, 1, 5 give a table of eight slots: 0 and 8 share home slot 0 and are
  displaced with seed 1 to the slots 5 and 7; 1, 4 and 5 are singletons and take the
  free slots 0, 1, 2.
\<close>

lemma example_solve_phase:
  "solve_phase stable_sorter insertion_order [0, 4, 8, 1, 5] =
      Inr ([[\<lparr>idx = 4, hash = 1\<rparr>], [\<lparr>idx = 2, hash = 4\<rparr>], [\<lparr>idx = 5, hash = 5\<rparr>], [], [], [], []],
        [0, 0, 0, 0, 0, 1, 0, 3], [1, 0, 0, 0, 0, 0, 0, 0])"
  by code_simp

lemma example_collect_free:
  "collect_free 0 [0, 0, 0, 0, 0, 1, 0, 3] = ([0, 1, 2, 3, 4, 6], [0, 0, 0, 0, 0, 0, 0, 2])"
  by code_simp

lemma example_table:
  "NewUint64 stable_sorter insertion_order [0, 4, 8, 1, 5] =
     Inr \<lparr>Values = [3, 1, 4, 0, 0, 0, 0, 2],
          Seeds = [1, 2147483648, 0, 0, 2147483649, 2147483650, 0, 0], Mask = 7\<rparr>"
proof -
  have fd: "find_dup (sort [0, 4, 8, 1, 5]) = None"
    by code_simp
  have bm: "build_mask [0, 4, 8, 1, 5] = 7"
    by code_simp
  have ps: "place_singletons 7
       [[\<lparr>idx = 4, hash = 1\<rparr>], [\<lparr>idx = 2, hash = 4\<rparr>], [\<lparr>idx = 5, hash = 5\<rparr>], [], [], [], []]
       [0, 1, 2, 3, 4, 6] [0, 0, 0, 0, 0, 0, 0, 2] [1, 0, 0, 0, 0, 0, 0, 0] =
       Inr ([3, 1, 4, 0, 0, 0, 0, 2], [1, 2147483648, 0, 0, 2147483649, 2147483650, 0, 0])"
    by code_simp
  show ?thesis
    unfolding NewUint64_def
    by (simp add: fd bm example_solve_phase example_collect_free ps singletonBit_def)
qed

section \<open>Determinism\<close>

text \<open>
  Claim C4. Two builds of the same ordered fingerprint sequence give the same
  \<open>Values\<close>, \<open>Seeds\<close> and \<open>Mask\<close>, and so the same answer to every query. The one
  thing the code leaves to the run is the order in which \<open>range\<close> visits the scratch
  map when a bucket is committed (and cleared); \<open>sort.Slice\<close> is a function of its
  input. So the two runs share \<open>sorter\<close> and each has a range order of its own, \<open>o1\<close>
  and \<open>o2\<close>.
\<close>

theorem build_deterministic:
  assumes "range_contract o1" and "range_contract o2"
  shows "NewUint64 sorter o1 keys = NewUint64 sorter o2 keys \<and>
         (\<forall>t1 t2. NewUint64 sorter o1 keys = Inr t1 \<and> NewUint64 sorter o2 keys = Inr t2 \<longrightarrow>
            Values t1 = Values t2 \<and> Seeds t1 = Seeds t2 \<and> Mask t1 = Mask t2 \<and>
            (\<forall>h. Query t1 h = Query t2 h))"
  using NewUint64_range_order [OF assms, of sorter keys] by auto

theorem build_deterministic_witness:
  "range_contract insertion_order \<and> range_contract reverse_order \<and>
   NewUint64 stable_sorter insertion_order [0, 4, 8, 1, 5] =
     Inr \<lparr>Values = [3, 1, 4, 0, 0, 0, 0, 2],
          Seeds = [1, 2147483648, 0, 0, 2147483649, 2147483650, 0, 0], Mask = 7\<rparr> \<and>
   NewUint64 stable_sorter reverse_order [0, 4, 8, 1, 5] =
     Inr \<lparr>Values = [3, 1, 4, 0, 0, 0, 0, 2],
          Seeds = [1, 2147483648, 0, 0, 2147483649, 2147483650, 0, 0], Mask = 7\<rparr>"
  using build_deterministic [OF range_contract_insertion_order range_contract_reverse_order,
      of stable_sorter "[0, 4, 8, 1, 5]"]
    range_contract_insertion_order range_contract_reverse_order example_table
  by simp

section \<open>The bucket table\<close>

lemma entries_from_Cons:
  "entries_from n (k # ks) = \<lparr>idx = of_nat n + 1, hash = k\<rparr> # entries_from (Suc n) ks"
  by (simp add: entries_from_def)

lemma fill_buckets_char:
  assumes "\<forall>k\<in>set ks. unat (k AND msk) < length h"
  shows "fill_buckets msk n ks h =
         Inr (map (\<lambda>i. h ! i @ filter (\<lambda>e. home msk e = i) (entries_from n ks)) [0..<length h])"
  using assms
proof (induction ks arbitrary: n h)
  case Nil
  show ?case
    by (simp add: entries_from_def map_nth)
next
  case (Cons k ks)
  let ?i = "unat (k AND msk)"
  let ?e = "\<lparr>idx = of_nat n + 1, hash = k\<rparr>"
  let ?h = "h[?i := h ! ?i @ [?e]]"
  have i: "?i < length h"
    using Cons.prems by simp
  have "\<forall>k\<in>set ks. unat (k AND msk) < length ?h"
    using Cons.prems by simp
  from Cons.IH [OF this, of "Suc n"]
  have "fill_buckets msk (Suc n) ks ?h =
        Inr (map (\<lambda>i. ?h ! i @ filter (\<lambda>e. home msk e = i) (entries_from (Suc n) ks)) [0..<length h])"
    by simp
  moreover have "map (\<lambda>i. ?h ! i @ filter (\<lambda>e. home msk e = i) (entries_from (Suc n) ks)) [0..<length h] =
      map (\<lambda>i. h ! i @ filter (\<lambda>e. home msk e = i) (entries_from n (k # ks))) [0..<length h]"
    by (rule map_cong) (auto simp add: entries_from_Cons home_def nth_list_update)
  ultimately show ?case
    using i by (simp add: Let_def)
qed

lemma fill_buckets_table:
  assumes "k \<le> 31"
  shows "fill_buckets (mask k) 0 keys (replicate (2 ^ k) []) =
         Inr (bucket_table (mask k) (2 ^ k) (entries_from 0 keys))"
proof -
  have "\<forall>x\<in>set keys. unat (x AND mask k) < length (replicate (2 ^ k) ([] :: entry list))"
    by (simp add: slot_lt)
  from fill_buckets_char [OF this, of 0] show ?thesis
    by (simp add: bucket_table_def cong: map_cong)
qed

lemma home_lt: "home (mask k) e < 2 ^ k"
  by (simp add: home_def slot_lt)

lemma bucket_table_length: "length (bucket_table msk n es) = n"
  by (simp add: bucket_table_def)

lemma bucket_table_member:
  "b \<in> set (bucket_table msk n es) \<Longrightarrow> e \<in> set b \<Longrightarrow> e \<in> set es \<and> home msk e = home msk (hd b)"
proof -
  assume b: "b \<in> set (bucket_table msk n es)" and e: "e \<in> set b"
  from b obtain i where i: "b = filter (\<lambda>e. home msk e = i) es"
    by (auto simp add: bucket_table_def)
  from e have ne: "b \<noteq> []" by auto
  then have "hd b \<in> set b" by simp
  with i e show ?thesis by auto
qed

lemma bucket_table_whole:
  assumes "b \<in> set (bucket_table msk n es)" and "b \<noteq> []" and "e \<in> set es"
    and "home msk e = home msk (hd b)"
  shows "e \<in> set b"
proof -
  from assms(1) obtain i where i: "b = filter (\<lambda>e. home msk e = i) es"
    by (auto simp add: bucket_table_def)
  from assms(2) have "hd b \<in> set b" by simp
  with i have "home msk (hd b) = i" by auto
  with assms(3,4) i show ?thesis by simp
qed

lemma bucket_table_Union:
  assumes "\<forall>e\<in>set es. home msk e < n"
  shows "\<Union> (set ` set (bucket_table msk n es)) = set es"
  using assms by (auto simp add: bucket_table_def)

lemma bucket_table_heads:
  "distinct (map (\<lambda>b. home msk (hd b)) (filter (\<lambda>b. b \<noteq> []) (bucket_table msk n es)))"
proof -
  let ?g = "\<lambda>i. filter (\<lambda>e. home msk e = i) es"
  have "map (\<lambda>b. home msk (hd b)) (filter (\<lambda>b. b \<noteq> []) (map ?g [0..<n])) =
        map (\<lambda>i. home msk (hd (?g i))) (filter (\<lambda>i. ?g i \<noteq> []) [0..<n])"
    by (simp add: filter_map comp_def)
  also have "\<dots> = map (\<lambda>i. i) (filter (\<lambda>i. ?g i \<noteq> []) [0..<n])"
  proof (rule map_cong [OF refl])
    fix i assume "i \<in> set (filter (\<lambda>i. ?g i \<noteq> []) [0..<n])"
    then have ne: "?g i \<noteq> []" by simp
    from hd_in_set [OF ne] show "home msk (hd (?g i)) = i" by simp
  qed
  finally show ?thesis
    by (simp add: bucket_table_def)
qed

lemma indicator_sum: "i < n \<Longrightarrow> sum_list (map (\<lambda>j. if i = j then (1::nat) else 0) [0..<n]) = 1"
  by (simp add: interv_sum_list_conv_sum_set_nat)

lemma bucket_table_total:
  assumes "\<forall>e\<in>set es. home msk e < n"
  shows "sum_list (map length (bucket_table msk n es)) = length es"
  using assms
proof (induction es)
  case Nil
  show ?case by (simp add: bucket_table_def)
next
  case (Cons e es)
  have "sum_list (map length (bucket_table msk n (e # es))) =
        sum_list (map (\<lambda>j. (if home msk e = j then 1 else 0) + length (filter (\<lambda>e. home msk e = j) es)) [0..<n])"
    by (auto simp add: bucket_table_def comp_def intro!: arg_cong [where f = sum_list])
  also have "\<dots> = sum_list (map (\<lambda>j. if home msk e = j then 1 else 0) [0..<n]) +
        sum_list (map length (bucket_table msk n es))"
    by (simp add: sum_list_addf bucket_table_def comp_def)
  also have "\<dots> = 1 + length es"
    using Cons by (simp add: indicator_sum)
  finally show ?case by simp
qed

section \<open>The seed search\<close>

lemma update_fresh: "k \<notin> fst ` set al \<Longrightarrow> AList.update k v al = al @ [(k, v)]"
  by (induction al) auto

lemma map_get_zero:
  assumes "\<forall>p\<in>set m. snd p \<noteq> 0"
  shows "map_get m k = 0 \<longleftrightarrow> k \<notin> fst ` set m"
proof (cases "map_of m k")
  case None
  then have "k \<notin> fst ` set m"
    by (simp add: map_of_eq_None_iff)
  with None show ?thesis
    by (simp add: map_get_def)
next
  case (Some v)
  then have "(k, v) \<in> set m"
    by (rule map_of_SomeD)
  with assms Some show ?thesis
    by (force simp add: map_get_def)
qed

lemma try_seed_char:
  assumes "\<forall>x. unat (x AND msk) < length values"
    and "\<forall>e\<in>set ks. idx e \<noteq> 0"
    and "\<forall>p\<in>set entries. snd p \<noteq> 0"
  shows "try_seed msk values seed ks entries =
         (if distinct (map (slot_of msk seed) ks) \<and>
             (\<forall>e\<in>set ks. slot_of msk seed e \<notin> fst ` set entries \<and>
                values ! unat (slot_of msk seed e) = 0)
          then Inr (Some (entries @ map (\<lambda>e. (slot_of msk seed e, idx e)) ks))
          else Inr None)"
  using assms(2,3)
proof (induction ks arbitrary: entries)
  case Nil
  show ?case by simp
next
  case (Cons k ks)
  let ?i = "slot_of msk seed k"
  have rng: "unat ?i < length values"
    using assms(1) by (simp add: slot_of_def)
  show ?case
  proof (cases "?i \<notin> fst ` set entries \<and> values ! unat ?i = 0")
    case False
    then show ?thesis
      using rng map_get_zero [OF Cons.prems(2), of ?i]
      by (auto simp add: Let_def slot_of_def)
  next
    case True
    let ?entries = "entries @ [(?i, idx k)]"
    have upd: "AList.update ?i (idx k) entries = ?entries"
      using True by (simp add: update_fresh)
    have nz: "\<forall>p\<in>set ?entries. snd p \<noteq> 0"
      using Cons.prems by auto
    have ks: "\<forall>e\<in>set ks. idx e \<noteq> 0"
      using Cons.prems by simp
    have step: "try_seed msk values seed (k # ks) entries = try_seed msk values seed ks ?entries"
      using True rng map_get_zero [OF Cons.prems(2), of ?i] upd
      by (simp add: Let_def slot_of_def)
    show ?thesis
      unfolding step Cons.IH [OF ks nz]
      using True by (auto intro: rev_image_eqI)
  qed
qed

lemma try_seed_ok:
  assumes "\<forall>x. unat (x AND msk) < length values" and "\<forall>e\<in>set ks. idx e \<noteq> 0"
  shows "try_seed msk values seed ks [] =
         (if seed_ok msk values ks seed
          then Inr (Some (map (\<lambda>e. (slot_of msk seed e, idx e)) ks)) else Inr None)"
  using try_seed_char [OF assms, of "[]" seed] by (simp add: seed_ok_def)

lemma unat_seed_succ: "(s :: 64 word) < 2 ^ 31 \<Longrightarrow> unat (s + 1) = unat s + 1"
proof -
  assume "s < 2 ^ 31"
  then have "unat s < 2 ^ 31"
    by (simp add: word_less_nat_alt)
  then have "unat s + unat (1 :: 64 word) < 2 ^ LENGTH(64)"
    by simp
  then have "unat (s + 1) = unat s + unat (1 :: 64 word)"
    by (simp only: unat_add_lem [THEN iffD1])
  then show ?thesis by simp
qed

lemma seed_search_char:
  assumes "\<forall>x. unat (x AND msk) < length values"
    and "\<forall>e\<in>set subkeys. idx e \<noteq> 0"
    and "s0 < 2 ^ 31"
  shows "(case seed_search msk values subkeys s0 of
            Inl e \<Rightarrow> e = NoSeed \<and> (\<forall>s. s0 < s \<and> s < 2 ^ 31 \<longrightarrow> \<not> seed_ok msk values subkeys s)
          | Inr (seed, entries) \<Rightarrow>
              s0 < seed \<and> seed < 2 ^ 31 \<and> seed_ok msk values subkeys seed \<and>
              entries = map (\<lambda>e. (slot_of msk seed e, idx e)) subkeys \<and>
              (\<forall>s. s0 < s \<and> s < seed \<longrightarrow> \<not> seed_ok msk values subkeys s))"
  using assms
proof (induction msk "values" subkeys s0 rule: seed_search.induct)
  case (1 msk vals subkeys seed)
  let ?s = "seed + 1"
  have u: "unat ?s = unat seed + 1"
    using "1.prems"(3) by (rule unat_seed_succ)
  have lt: "seed < ?s"
    using u by (simp add: word_less_nat_alt)
  have between: "seed < s \<longleftrightarrow> s = ?s \<or> ?s < s" for s
    using u by (auto simp add: word_less_nat_alt word_unat_eq_iff)
  have ts: "try_seed msk vals ?s subkeys [] =
      (if seed_ok msk vals subkeys ?s
       then Inr (Some (map (\<lambda>e. (slot_of msk ?s e, idx e)) subkeys)) else Inr None)"
    using "1.prems"(1,2) by (rule try_seed_ok)
  show ?case
  proof (cases "(2 ^ 31 :: 64 word) \<le> ?s")
    case True
    then have "seed_search msk vals subkeys seed = Inl NoSeed"
      by (subst seed_search.simps) (simp add: Let_def)
    moreover have "\<not> (seed < s \<and> s < 2 ^ 31)" for s
      using True between [of s] by auto
    ultimately show ?thesis by auto
  next
    case False
    show ?thesis
    proof (cases "seed_ok msk vals subkeys ?s")
      case True
      then have "seed_search msk vals subkeys seed =
          Inr (?s, map (\<lambda>e. (slot_of msk ?s e, idx e)) subkeys)"
        using False ts by (subst seed_search.simps) (simp add: Let_def)
      moreover have "\<not> (seed < s \<and> s < ?s)" for s
        using between [of s] by auto
      ultimately show ?thesis
        using True False lt by (auto simp add: not_le)
    next
      case nok: False
      then have t: "try_seed msk vals ?s subkeys [] = Inr None"
        using ts by simp
      then have eq: "seed_search msk vals subkeys seed = seed_search msk vals subkeys ?s"
        using False by (subst seed_search.simps) (simp add: Let_def)
      have s31: "?s < 2 ^ 31"
        using False by simp
      note IH = "1.IH" [OF refl False t refl "1.prems"(1,2) s31]
      show ?thesis
      proof (cases "seed_search msk vals subkeys ?s")
        case (Inl e)
        with IH have "e = NoSeed" and a: "\<forall>s. ?s < s \<and> s < 2 ^ 31 \<longrightarrow> \<not> seed_ok msk vals subkeys s"
          by simp_all
        have "\<not> seed_ok msk vals subkeys s" if "seed < s" "s < 2 ^ 31" for s
          using that a nok between [of s] by auto
        with \<open>e = NoSeed\<close> Inl eq show ?thesis by auto
      next
        case (Inr r)
        obtain sd es where r: "r = (sd, es)" by (cases r)
        from IH Inr r have b: "?s < sd" "sd < 2 ^ 31" "seed_ok msk vals subkeys sd"
          "es = map (\<lambda>e. (slot_of msk sd e, idx e)) subkeys"
          and a: "\<forall>s. ?s < s \<and> s < sd \<longrightarrow> \<not> seed_ok msk vals subkeys s"
          by simp_all
        have "\<not> seed_ok msk vals subkeys s" if "seed < s" "s < sd" for s
          using that a nok between [of s] by auto
        moreover have "seed < sd"
          using b(1) between [of sd] by simp
        ultimately show ?thesis
          using b Inr r eq by auto
      qed
    qed
  qed
qed

section \<open>Placing a bucket\<close>

lemma fold_update_length:
  "length (fold (\<lambda>p vs. vs[unat (fst p) := snd p]) es values) = length values"
  by (induction es arbitrary: "values") simp_all

lemma fold_update_other:
  "j \<notin> (\<lambda>p. unat (fst p)) ` set es \<Longrightarrow>
   fold (\<lambda>p vs. vs[unat (fst p) := snd p]) es values ! j = values ! j"
  by (induction es arbitrary: "values") simp_all

lemma fold_update_hit:
  "distinct (map fst es) \<Longrightarrow> p \<in> set es \<Longrightarrow> unat (fst p) < length values \<Longrightarrow>
   fold (\<lambda>p vs. vs[unat (fst p) := snd p]) es values ! unat (fst p) = snd p"
proof (induction es arbitrary: "values")
  case Nil
  then show ?case by simp
next
  case (Cons q es)
  show ?case
  proof (cases "p \<in> set es")
    case True
    with Cons show ?thesis by simp
  next
    case False
    with Cons.prems have pq: "p = q" by simp
    have "fst q \<notin> fst ` set es"
      using Cons.prems(1) by simp
    then have "unat (fst q) \<notin> (\<lambda>p. unat (fst p)) ` set es"
      by (auto simp add: word_unat_eq_iff image_iff)
    from fold_update_other [OF this] Cons.prems(3) show ?thesis
      by (simp add: pq)
  qed
qed

lemma commit_bucket:
  assumes "range_contract ord"
    and "\<forall>x. unat (x AND msk) < length values"
    and "distinct (map (slot_of msk seed) b)"
  shows "\<exists>values'. commit (ord (map (\<lambda>e. (slot_of msk seed e, idx e)) b)) values = Inr values' \<and>
           length values' = length values \<and>
           (\<forall>e\<in>set b. values' ! unat (slot_of msk seed e) = idx e) \<and>
           (\<forall>j. j \<notin> (\<lambda>e. unat (slot_of msk seed e)) ` set b \<longrightarrow> values' ! j = values ! j)"
proof -
  let ?es = "map (\<lambda>e. (slot_of msk seed e, idx e)) b"
  let ?vs = "fold (\<lambda>p vs. vs[unat (fst p) := snd p]) ?es values"
  have d: "distinct (map fst ?es)"
    using assms(3) by (simp add: comp_def)
  have rng: "unat (slot_of msk seed e) < length values" for e
    using assms(2) by (simp add: slot_of_def)
  have "mset (ord ?es) = mset ?es"
    using assms(1) by (simp add: range_contract_def)
  with d have "commit (ord ?es) values = commit ?es values"
    by (rule commit_permute)
  also have "\<dots> = Inr ?vs"
    using rng by (simp add: commit_fold)
  finally have c: "commit (ord ?es) values = Inr ?vs" .
  have hit: "?vs ! unat (slot_of msk seed e) = idx e" if "e \<in> set b" for e
  proof -
    have "(slot_of msk seed e, idx e) \<in> set ?es"
      using that by auto
    from fold_update_hit [OF d this] rng show ?thesis by simp
  qed
  have other: "?vs ! j = values ! j" if "j \<notin> (\<lambda>e. unat (slot_of msk seed e)) ` set b" for j
  proof -
    have "j \<notin> (\<lambda>p. unat (fst p)) ` set ?es"
      using that by (auto simp add: image_iff)
    then show ?thesis by (rule fold_update_other)
  qed
  show ?thesis
    using c hit other by (auto simp add: fold_update_length)
qed

lemma qslot_multi:
  assumes "seeds ! unat (h AND msk) = ucast seed" and "seed < 2 ^ 31"
  shows "qslot msk seeds h = unat (xorshiftMult64 (h + seed) AND msk)"
  using assms by (simp add: qslot_def Let_def seed_flag seed_payload seed_roundtrip)

lemma qslot_single:
  assumes "seeds ! unat (h AND msk) = singletonBit OR of_nat d" and "d < 2 ^ 31"
  shows "qslot msk seeds h = d"
proof -
  have f: "seeds ! unat (h AND msk) AND singletonBit \<noteq> 0"
    unfolding assms(1) by (rule descriptor_flag)
  have p: "unat (seeds ! unat (h AND msk) AND payloadMask) = d"
    unfolding assms(1) using assms(2) by (rule descriptor_payload)
  show ?thesis
    unfolding qslot_def Let_def using f p by simp
qed

lemma qslot_update_other:
  "unat (h AND msk) \<noteq> i \<Longrightarrow> qslot msk (seeds[i := x]) h = qslot msk seeds h"
  by (simp add: qslot_def)

lemma solve_step:
  assumes pl: "placed k 0 P values seeds"
    and ord: "range_contract ord"
    and b: "\<forall>e\<in>set b. idx e \<noteq> 0 \<and> home (mask k) e = i0"
    and i0: "i0 < 2 ^ k"
    and fresh: "i0 \<notin> home (mask k) ` P"
    and seed: "seed < 2 ^ 31" "seed_ok (mask k) values b seed"
  shows "\<exists>values'. commit (ord (map (\<lambda>e. (slot_of (mask k) seed e, idx e)) b)) values = Inr values' \<and>
           placed k 0 (P \<union> set b) values' (seeds[i0 := ucast seed])"
proof -
  let ?S = "seeds[i0 := ucast seed]"
  let ?q = "qslot (mask k)"
  let ?slot = "\<lambda>e. unat (slot_of (mask k) seed e)"
  have len: "length values = 2 ^ k" "length seeds = 2 ^ k"
    using pl by (simp_all add: placed_def)
  have rng: "\<forall>x :: 64 word. unat (x AND mask k) < length values"
    by (simp add: len slot_lt)
  have dist: "distinct (map (slot_of (mask k) seed) b)"
    and free: "\<forall>e\<in>set b. values ! ?slot e = 0"
    using seed(2) by (simp_all add: seed_ok_def)
  from commit_bucket [OF ord rng dist] obtain values' where
    c: "commit (ord (map (\<lambda>e. (slot_of (mask k) seed e, idx e)) b)) values = Inr values'"
    and len': "length values' = length values"
    and hit: "\<forall>e\<in>set b. values' ! ?slot e = idx e"
    and other: "\<forall>j. j \<notin> ?slot ` set b \<longrightarrow> values' ! j = values ! j"
    by blast
  have qb: "?q ?S (hash e) = ?slot e" if "e \<in> set b" for e
  proof -
    have "unat (hash e AND mask k) = i0"
      using b that by (simp add: home_def)
    then have "?S ! unat (hash e AND mask k) = ucast seed"
      using i0 len by simp
    from qslot_multi [OF this seed(1)] show ?thesis
      by (simp add: slot_of_def)
  qed
  have qP: "?q ?S (hash e) = ?q seeds (hash e)" if "e \<in> P" for e
  proof -
    have "unat (hash e AND mask k) \<noteq> i0"
      using fresh that by (auto simp add: home_def image_iff)
    then show ?thesis by (rule qslot_update_other)
  qed
  have oldP: "idx e \<noteq> 0 \<and> ?q seeds (hash e) < 2 ^ k \<and> values ! ?q seeds (hash e) = idx e"
    if "e \<in> P" for e
    using pl that by (simp add: placed_def)
  have keepP: "values' ! ?q seeds (hash e) = idx e" if "e \<in> P" for e
  proof -
    have "values ! ?q seeds (hash e) \<noteq> 0"
      using oldP [OF that] by simp
    then have "?q seeds (hash e) \<notin> ?slot ` set b"
      using free by auto
    with other oldP [OF that] show ?thesis by simp
  qed
  have c1: "\<forall>e\<in>P \<union> set b. idx e \<noteq> 0 \<and> ?q ?S (hash e) < 2 ^ k \<and>
      values' ! ?q ?S (hash e) = idx e - 0"
  proof
    fix e assume "e \<in> P \<union> set b"
    then show "idx e \<noteq> 0 \<and> ?q ?S (hash e) < 2 ^ k \<and> values' ! ?q ?S (hash e) = idx e - 0"
    proof
      assume e: "e \<in> P"
      with oldP [OF e] keepP [OF e] qP [OF e] show ?thesis by simp
    next
      assume e: "e \<in> set b"
      have "?slot e < 2 ^ k"
        by (simp add: slot_of_def slot_lt)
      with b hit qb [OF e] e show ?thesis by simp
    qed
  qed
  have c2: "\<forall>j<2 ^ k. values' ! j \<noteq> 0 \<longrightarrow> (\<exists>e\<in>P \<union> set b. ?q ?S (hash e) = j)"
  proof (intro allI impI)
    fix j assume j: "j < 2 ^ k" and nz: "values' ! j \<noteq> 0"
    show "\<exists>e\<in>P \<union> set b. ?q ?S (hash e) = j"
    proof (cases "j \<in> ?slot ` set b")
      case True
      then obtain e where "e \<in> set b" "j = ?slot e" by auto
      with qb show ?thesis by auto
    next
      case False
      with other nz have "values ! j \<noteq> 0" by simp
      with pl j obtain e where "e \<in> P" "?q seeds (hash e) = j"
        by (auto simp add: placed_def)
      with qP show ?thesis by auto
    qed
  qed
  have c3: "\<forall>j<2 ^ k. ?S ! j AND singletonBit \<noteq> 0 \<longrightarrow> unat (?S ! j AND payloadMask) < 2 ^ k"
  proof (intro allI impI)
    fix j assume j: "j < 2 ^ k" and fl: "?S ! j AND singletonBit \<noteq> 0"
    show "unat (?S ! j AND payloadMask) < 2 ^ k"
    proof (cases "j = i0")
      case True
      with fl i0 len seed_flag [OF seed(1)] show ?thesis by simp
    next
      case False
      with fl pl j show ?thesis by (simp add: placed_def)
    qed
  qed
  have "placed k 0 (P \<union> set b) values' ?S"
    unfolding placed_def using c1 c2 c3 len len' by simp
  with c show ?thesis by blast
qed

lemma solve_buckets_placed:
  assumes ord: "range_contract ord"
  shows "placed k 0 P values seeds \<Longrightarrow>
    \<forall>b\<in>set bs. \<forall>e\<in>set b. idx e \<noteq> 0 \<and> home (mask k) e = home (mask k) (hd b) \<Longrightarrow>
    distinct (map (\<lambda>b. home (mask k) (hd b)) (filter (\<lambda>b. b \<noteq> []) bs)) \<Longrightarrow>
    home (mask k) ` P \<inter> (\<lambda>b. home (mask k) (hd b)) ` {b \<in> set bs. b \<noteq> []} = {} \<Longrightarrow>
    (case solve_buckets ord (mask k) bs values seeds of
       Inl e \<Rightarrow> e = NoSeed
     | Inr (rest, values', seeds') \<Rightarrow>
         \<exists>pre. bs = pre @ rest \<and> (\<forall>b\<in>set pre. 1 < length b) \<and>
           (rest \<noteq> [] \<longrightarrow> length (hd rest) \<le> 1) \<and>
           placed k 0 (P \<union> \<Union> (set ` set pre)) values' seeds')"
proof (induction bs arbitrary: P "values" seeds)
  case Nil
  then show ?case by simp
next
  case (Cons b bs)
  show ?case
  proof (cases "1 < length b")
    case False
    have "b # bs = [] @ b # bs \<and> (\<forall>b\<in>set []. 1 < length b) \<and>
        (b # bs \<noteq> [] \<longrightarrow> length (hd (b # bs)) \<le> 1) \<and>
        placed k 0 (P \<union> \<Union> (set ` set [])) values seeds"
      using Cons.prems(1) False by simp
    then have "\<exists>pre. b # bs = pre @ b # bs \<and> (\<forall>b\<in>set pre. 1 < length b) \<and>
        (b # bs \<noteq> [] \<longrightarrow> length (hd (b # bs)) \<le> 1) \<and>
        placed k 0 (P \<union> \<Union> (set ` set pre)) values seeds"
      by (rule exI)
    with False show ?thesis by simp
  next
    case True
    let ?i0 = "home (mask k) (hd b)"
    have ne: "b \<noteq> []"
      using True by auto
    have len: "length values = 2 ^ k" "length seeds = 2 ^ k"
      using Cons.prems(1) by (simp_all add: placed_def)
    have rng: "\<forall>x :: 64 word. unat (x AND mask k) < length values"
      by (simp add: len slot_lt)
    have nz: "\<forall>e\<in>set b. idx e \<noteq> 0"
      using Cons.prems(2) by simp
    have bh: "\<forall>e\<in>set b. idx e \<noteq> 0 \<and> home (mask k) e = ?i0"
      using Cons.prems(2) by simp
    have i0: "?i0 < 2 ^ k"
      by (rule home_lt)
    have "?i0 \<in> (\<lambda>b. home (mask k) (hd b)) ` {x \<in> set (b # bs). x \<noteq> []}"
      using ne by simp
    with Cons.prems(4) have fresh: "?i0 \<notin> home (mask k) ` P"
      by blast
    have z: "(0 :: 64 word) < 2 ^ 31"
      by simp
    note ss = seed_search_char [OF rng nz z]
    show ?thesis
    proof (cases "seed_search (mask k) values b 0")
      case (Inl e)
      with ss have "e = NoSeed" by simp
      with Inl True show ?thesis by simp
    next
      case (Inr r)
      obtain seed entries where r: "r = (seed, entries)" by (cases r)
      from ss Inr r have seed: "seed < 2 ^ 31" "seed_ok (mask k) values b seed"
        and entries: "entries = map (\<lambda>e. (slot_of (mask k) seed e, idx e)) b"
        by simp_all
      from solve_step [OF Cons.prems(1) ord bh i0 fresh seed] obtain values' where
        c: "commit (ord entries) values = Inr values'"
        and pl': "placed k 0 (P \<union> set b) values' (seeds[?i0 := ucast seed])"
        unfolding entries by blast
      have step: "solve_buckets ord (mask k) (b # bs) values seeds =
          solve_buckets ord (mask k) bs values' (seeds[?i0 := ucast seed])"
        using True Inr r c i0 len by (simp add: Let_def home_def)
      have p2: "\<forall>b\<in>set bs. \<forall>e\<in>set b. idx e \<noteq> 0 \<and> home (mask k) e = home (mask k) (hd b)"
        using Cons.prems(2) by simp
      have p3: "distinct (map (\<lambda>b. home (mask k) (hd b)) (filter (\<lambda>b. b \<noteq> []) bs))"
        using Cons.prems(3) by (simp split: if_splits)
      have "hd b \<in> set b"
        using ne by simp
      with bh have hb: "home (mask k) ` set b = {?i0}"
        by blast
      have "distinct (?i0 # map (\<lambda>b. home (mask k) (hd b)) (filter (\<lambda>b. b \<noteq> []) bs))"
        using Cons.prems(3) ne by simp
      then have "?i0 \<notin> set (map (\<lambda>b. home (mask k) (hd b)) (filter (\<lambda>b. b \<noteq> []) bs))"
        by simp
      then have a: "?i0 \<notin> (\<lambda>b. home (mask k) (hd b)) ` {b \<in> set bs. b \<noteq> []}"
        by simp
      have "{b' \<in> set bs. b' \<noteq> []} \<subseteq> {x \<in> set (b # bs). x \<noteq> []}"
        by auto
      with Cons.prems(4) have "home (mask k) ` P \<inter>
          (\<lambda>b. home (mask k) (hd b)) ` {b \<in> set bs. b \<noteq> []} = {}"
        by blast
      with a have p4: "home (mask k) ` (P \<union> set b) \<inter>
          (\<lambda>b. home (mask k) (hd b)) ` {b \<in> set bs. b \<noteq> []} = {}"
        unfolding image_Un hb by blast
      note IH = Cons.IH [OF pl' p2 p3 p4]
      show ?thesis
      proof (cases "solve_buckets ord (mask k) bs values' (seeds[?i0 := ucast seed])")
        case (Inl e)
        with IH step show ?thesis by simp
      next
        case (Inr r')
        obtain rest v'' s'' where r': "r' = (rest, v'', s'')" by (cases r')
        from IH Inr r' obtain pre where pre: "bs = pre @ rest" "\<forall>b\<in>set pre. 1 < length b"
          "rest \<noteq> [] \<longrightarrow> length (hd rest) \<le> 1"
          "placed k 0 (P \<union> set b \<union> \<Union> (set ` set pre)) v'' s''"
          by auto
        have "b # bs = (b # pre) @ rest \<and> (\<forall>b\<in>set (b # pre). 1 < length b) \<and>
            (rest \<noteq> [] \<longrightarrow> length (hd rest) \<le> 1) \<and>
            placed k 0 (P \<union> \<Union> (set ` set (b # pre))) v'' s''"
          using pre True by (simp add: Un_assoc)
        then show ?thesis
          unfolding step Inr r' by (simp only: sum.case prod.case) blast
      qed
    qed
  qed
qed

section \<open>The free-list\<close>

lemma collect_free_char:
  "collect_free i vs =
     (map (\<lambda>j. i + j) (filter (\<lambda>j. vs ! j = 0) [0..<length vs]),
      map (\<lambda>v. if v = 0 then v else v - 1) vs)"
proof (induction vs arbitrary: i)
  case Nil
  show ?case by simp
next
  case (Cons v vs)
  have "[0..<length (v # vs)] = 0 # map Suc [0..<length vs]"
    by (simp add: upt_conv_Cons map_Suc_upt del: upt_Suc)
  then have "filter (\<lambda>j. (v # vs) ! j = 0) [0..<length (v # vs)] =
      (if v = 0 then [0] else []) @ map Suc (filter (\<lambda>j. vs ! j = 0) [0..<length vs])"
    by (simp add: filter_map comp_def)
  then show ?case
    by (simp add: Cons.IH comp_def)
qed

lemma collect_free_zero:
  "collect_free 0 vs =
     (filter (\<lambda>j. vs ! j = 0) [0..<length vs], map (\<lambda>v. if v = 0 then v else v - 1) vs)"
  by (simp add: collect_free_char)

lemma zero_slots_count:
  "length (filter (\<lambda>j. vs ! j = 0) [0..<length vs]) + card {j. j < length vs \<and> vs ! j \<noteq> 0} = length vs"
proof -
  let ?Z = "{j. j < length vs \<and> vs ! j = 0}" and ?N = "{j. j < length vs \<and> vs ! j \<noteq> 0}"
  have "length (filter (\<lambda>j. vs ! j = 0) [0..<length vs]) = card (set (filter (\<lambda>j. vs ! j = 0) [0..<length vs]))"
    by (rule distinct_card [symmetric]) simp
  also have "set (filter (\<lambda>j. vs ! j = 0) [0..<length vs]) = ?Z"
    by auto
  finally have "length (filter (\<lambda>j. vs ! j = 0) [0..<length vs]) = card ?Z" .
  moreover have "card ?Z + card ?N = card (?Z \<union> ?N)"
    by (rule card_Un_disjoint [symmetric]) auto
  moreover have "?Z \<union> ?N = {..<length vs}"
    by auto
  ultimately show ?thesis by simp
qed

lemma placed_decrement:
  assumes "placed k 0 P values seeds"
  shows "placed k 1 P (map (\<lambda>v. if v = 0 then v else v - 1) values) seeds"
proof -
  let ?d = "\<lambda>v :: 32 word. if v = 0 then v else v - 1"
  have len: "length values = 2 ^ k"
    using assms by (simp add: placed_def)
  have "idx e \<noteq> 0 \<and> qslot (mask k) seeds (hash e) < 2 ^ k \<and>
      map ?d values ! qslot (mask k) seeds (hash e) = idx e - 1" if "e \<in> P" for e
    using assms that len by (simp add: placed_def)
  moreover have "\<exists>e\<in>P. qslot (mask k) seeds (hash e) = j"
    if "j < 2 ^ k" "map ?d values ! j \<noteq> 0" for j
  proof -
    have "values ! j \<noteq> 0"
      using that len by (auto split: if_splits)
    with assms that(1) show ?thesis
      by (simp add: placed_def)
  qed
  ultimately show ?thesis
    using assms unfolding placed_def by simp
qed

lemma placed_nonzero_count:
  assumes "placed k off P values seeds" and "finite P"
  shows "card {j. j < 2 ^ k \<and> values ! j \<noteq> 0} \<le> card P"
proof -
  have "{j. j < 2 ^ k \<and> values ! j \<noteq> 0} \<subseteq> (\<lambda>e. qslot (mask k) seeds (hash e)) ` P"
    using assms(1) by (auto simp add: placed_def)
  then have "card {j. j < 2 ^ k \<and> values ! j \<noteq> 0} \<le> card ((\<lambda>e. qslot (mask k) seeds (hash e)) ` P)"
    using assms(2) by (intro card_mono) auto
  also have "\<dots> \<le> card P"
    using assms(2) by (rule card_image_le)
  finally show ?thesis .
qed

lemma card_Union_buckets: "card (\<Union> (set ` set bs)) \<le> sum_list (map length bs)"
proof (induction bs)
  case Nil
  show ?case by simp
next
  case (Cons b bs)
  have "card (set b \<union> \<Union> (set ` set bs)) \<le> card (set b) + card (\<Union> (set ` set bs))"
    by (rule card_Un_le)
  also have "\<dots> \<le> length b + sum_list (map length bs)"
    using Cons by (intro add_mono card_length)
  finally show ?case by simp
qed

section \<open>The singleton allocator\<close>

lemma singleton_step:
  assumes pl: "placed k 1 Q values seeds"
    and k: "k \<le> 31"
    and e: "idx e \<noteq> 0"
    and fresh: "home (mask k) e \<notin> home (mask k) ` Q"
    and dst: "dst < 2 ^ k" "dst \<notin> (\<lambda>e. qslot (mask k) seeds (hash e)) ` Q"
  shows "placed k 1 (Q \<union> {e}) (values[dst := idx e - 1])
           (seeds[home (mask k) e := singletonBit OR of_nat dst]) \<and>
         qslot (mask k) (seeds[home (mask k) e := singletonBit OR of_nat dst]) (hash e) = dst \<and>
         (\<forall>e'\<in>Q. qslot (mask k) (seeds[home (mask k) e := singletonBit OR of_nat dst]) (hash e') =
            qslot (mask k) seeds (hash e'))"
proof -
  let ?i0 = "home (mask k) e"
  let ?S = "seeds[?i0 := singletonBit OR of_nat dst]"
  let ?V = "values[dst := idx e - 1]"
  let ?q = "qslot (mask k)"
  have len: "length values = 2 ^ k" "length seeds = 2 ^ k"
    using pl by (simp_all add: placed_def)
  have i0: "?i0 < 2 ^ k"
    by (rule home_lt)
  have "(2::nat) ^ k \<le> 2 ^ 31"
    using k by (intro power_increasing) auto
  with dst(1) have d31: "dst < 2 ^ 31"
    by simp
  have "?S ! unat (hash e AND mask k) = singletonBit OR of_nat dst"
    using i0 len by (simp add: home_def)
  from qslot_single [OF this d31] have qe: "?q ?S (hash e) = dst" .
  have qQ: "?q ?S (hash e') = ?q seeds (hash e')" if "e' \<in> Q" for e'
  proof -
    have "unat (hash e' AND mask k) \<noteq> ?i0"
      using fresh that by (auto simp add: home_def image_iff)
    then show ?thesis by (rule qslot_update_other)
  qed
  have oldQ: "idx e' \<noteq> 0 \<and> ?q seeds (hash e') < 2 ^ k \<and> values ! ?q seeds (hash e') = idx e' - 1"
    if "e' \<in> Q" for e'
    using pl that by (simp add: placed_def)
  have c1: "\<forall>x\<in>Q \<union> {e}. idx x \<noteq> 0 \<and> ?q ?S (hash x) < 2 ^ k \<and> ?V ! ?q ?S (hash x) = idx x - 1"
  proof
    fix x assume "x \<in> Q \<union> {e}"
    then show "idx x \<noteq> 0 \<and> ?q ?S (hash x) < 2 ^ k \<and> ?V ! ?q ?S (hash x) = idx x - 1"
    proof
      assume x: "x \<in> Q"
      then have "?q seeds (hash x) \<noteq> dst"
        using dst(2) by auto
      with oldQ [OF x] qQ [OF x] show ?thesis by simp
    next
      assume "x \<in> {e}"
      with e qe dst(1) len show ?thesis by simp
    qed
  qed
  have c2: "\<forall>j<2 ^ k. ?V ! j \<noteq> 0 \<longrightarrow> (\<exists>x\<in>Q \<union> {e}. ?q ?S (hash x) = j)"
  proof (intro allI impI)
    fix j assume j: "j < 2 ^ k" and nz: "?V ! j \<noteq> 0"
    show "\<exists>x\<in>Q \<union> {e}. ?q ?S (hash x) = j"
    proof (cases "j = dst")
      case True
      with qe show ?thesis by simp
    next
      case False
      with nz have "values ! j \<noteq> 0" by simp
      with pl j obtain x where "x \<in> Q" "?q seeds (hash x) = j"
        by (auto simp add: placed_def)
      with qQ show ?thesis by auto
    qed
  qed
  have c3: "\<forall>j<2 ^ k. ?S ! j AND singletonBit \<noteq> 0 \<longrightarrow> unat (?S ! j AND payloadMask) < 2 ^ k"
  proof (intro allI impI)
    fix j assume j: "j < 2 ^ k" and fl: "?S ! j AND singletonBit \<noteq> 0"
    show "unat (?S ! j AND payloadMask) < 2 ^ k"
    proof (cases "j = ?i0")
      case True
      then have "?S ! j = singletonBit OR of_nat dst"
        using i0 len by simp
      with descriptor_payload [OF d31] dst(1) show ?thesis by simp
    next
      case False
      with fl pl j show ?thesis by (simp add: placed_def)
    qed
  qed
  have "placed k 1 (Q \<union> {e}) ?V ?S"
    unfolding placed_def using c1 c2 c3 len by simp
  with qe qQ show ?thesis by simp
qed

lemma place_singletons_placed:
  assumes k: "k \<le> 31"
  shows "placed k 1 Q values seeds \<Longrightarrow>
    \<forall>b\<in>set rest. length b \<le> 1 \<and> (\<forall>e\<in>set b. idx e \<noteq> 0) \<Longrightarrow>
    sorted_wrt (\<lambda>a b. length b \<le> length a) rest \<Longrightarrow>
    distinct (map (\<lambda>b. home (mask k) (hd b)) (filter (\<lambda>b. b \<noteq> []) rest)) \<Longrightarrow>
    home (mask k) ` Q \<inter> (\<lambda>b. home (mask k) (hd b)) ` {b \<in> set rest. b \<noteq> []} = {} \<Longrightarrow>
    distinct free \<Longrightarrow>
    \<forall>d\<in>set free. d < 2 ^ k \<and> d \<notin> (\<lambda>e. qslot (mask k) seeds (hash e)) ` Q \<Longrightarrow>
    sum_list (map length rest) \<le> length free \<Longrightarrow>
    \<exists>values' seeds'. place_singletons (mask k) rest free values seeds = Inr (values', seeds') \<and>
       placed k 1 (Q \<union> \<Union> (set ` set rest)) values' seeds'"
proof (induction rest arbitrary: Q free "values" seeds)
  case Nil
  then show ?case by simp
next
  case (Cons b rest)
  show ?case
  proof (cases "b = []")
    case True
    have "\<forall>b'\<in>set rest. b' = []"
      using Cons.prems(3) True by simp
    then have "\<Union> (set ` set (b # rest)) = {}"
      using True by simp
    then have "Q \<union> \<Union> (set ` set (b # rest)) = Q"
      by (simp only: Un_empty_right)
    moreover have "place_singletons (mask k) (b # rest) free values seeds = Inr (values, seeds)"
      using True by simp
    ultimately show ?thesis
      using Cons.prems(1) by (simp only:) simp
  next
    case False
    have "length b \<le> 1"
      using Cons.prems(2) by simp
    with False obtain e where b: "b = [e]"
      by (cases b) auto
    have e: "idx e \<noteq> 0"
      using Cons.prems(2) b by simp
    from Cons.prems(8) b obtain dst free' where free: "free = dst # free'"
      by (cases free) auto
    let ?i0 = "home (mask k) e"
    let ?S = "seeds[?i0 := singletonBit OR of_nat dst]"
    let ?V = "values[dst := idx e - 1]"
    have len: "length values = 2 ^ k" "length seeds = 2 ^ k"
      using Cons.prems(1) by (simp_all add: placed_def)
    have i0: "?i0 < 2 ^ k"
      by (rule home_lt)
    have dst: "dst < 2 ^ k" "dst \<notin> (\<lambda>e. qslot (mask k) seeds (hash e)) ` Q"
      using Cons.prems(7) free by simp_all
    have "?i0 \<in> (\<lambda>b. home (mask k) (hd b)) ` {x \<in> set (b # rest). x \<noteq> []}"
      using b by (intro image_eqI [where x = b]) simp_all
    with Cons.prems(5) have fresh: "?i0 \<notin> home (mask k) ` Q"
      by blast
    from singleton_step [OF Cons.prems(1) k e fresh dst]
    have pl': "placed k 1 (Q \<union> {e}) ?V ?S"
      and qe: "qslot (mask k) ?S (hash e) = dst"
      and qQ: "\<forall>e'\<in>Q. qslot (mask k) ?S (hash e') = qslot (mask k) seeds (hash e')"
      by simp_all
    have step: "place_singletons (mask k) (b # rest) free values seeds =
        place_singletons (mask k) rest free' ?V ?S"
      using b free dst(1) i0 len by (simp add: Let_def home_def)
    have p2: "\<forall>b\<in>set rest. length b \<le> 1 \<and> (\<forall>e\<in>set b. idx e \<noteq> 0)"
      using Cons.prems(2) by simp
    have p3: "sorted_wrt (\<lambda>a b. length b \<le> length a) rest"
      using Cons.prems(3) by simp
    have p4: "distinct (map (\<lambda>b. home (mask k) (hd b)) (filter (\<lambda>b. b \<noteq> []) rest))"
      using Cons.prems(4) by (simp split: if_splits)
    have "distinct (?i0 # map (\<lambda>b. home (mask k) (hd b)) (filter (\<lambda>b. b \<noteq> []) rest))"
      using Cons.prems(4) b by simp
    then have "?i0 \<notin> set (map (\<lambda>b. home (mask k) (hd b)) (filter (\<lambda>b. b \<noteq> []) rest))"
      by simp
    then have a: "?i0 \<notin> (\<lambda>b. home (mask k) (hd b)) ` {b \<in> set rest. b \<noteq> []}"
      by simp
    have "{b' \<in> set rest. b' \<noteq> []} \<subseteq> {x \<in> set (b # rest). x \<noteq> []}"
      by auto
    with Cons.prems(5) have "home (mask k) ` Q \<inter>
        (\<lambda>b. home (mask k) (hd b)) ` {b \<in> set rest. b \<noteq> []} = {}"
      by blast
    with a have p5: "home (mask k) ` (Q \<union> {e}) \<inter>
        (\<lambda>b. home (mask k) (hd b)) ` {b \<in> set rest. b \<noteq> []} = {}"
      unfolding image_Un by simp
    have p6: "distinct free'"
      using Cons.prems(6) free by simp
    have p7: "\<forall>d\<in>set free'. d < 2 ^ k \<and> d \<notin> (\<lambda>e. qslot (mask k) ?S (hash e)) ` (Q \<union> {e})"
    proof
      fix d assume d: "d \<in> set free'"
      then have "d \<noteq> dst"
        using Cons.prems(6) free by auto
      moreover have "d < 2 ^ k" "d \<notin> (\<lambda>e. qslot (mask k) seeds (hash e)) ` Q"
        using Cons.prems(7) free d by simp_all
      ultimately show "d < 2 ^ k \<and> d \<notin> (\<lambda>e. qslot (mask k) ?S (hash e)) ` (Q \<union> {e})"
        using qe qQ by (auto simp add: image_iff)
    qed
    have p8: "sum_list (map length rest) \<le> length free'"
      using Cons.prems(8) b free by simp
    from Cons.IH [OF pl' p2 p3 p4 p5 p6 p7 p8] obtain values' seeds' where
      "place_singletons (mask k) rest free' ?V ?S = Inr (values', seeds')"
      "placed k 1 (Q \<union> {e} \<union> \<Union> (set ` set rest)) values' seeds'"
      by blast
    moreover have "Q \<union> {e} \<union> \<Union> (set ` set rest) = Q \<union> \<Union> (set ` set (b # rest))"
      using b by auto
    ultimately show ?thesis
      unfolding step by simp
  qed
qed

section \<open>The whole construction\<close>

lemma entries_from_set:
  "set (entries_from 0 keys) = {\<lparr>idx = of_nat i + 1, hash = keys ! i\<rparr> | i. i < length keys}"
  by (auto simp add: entries_from_def in_set_enumerate_eq image_iff intro: exI [of _ "(i, keys ! i)" for i])

lemma entries_from_length: "length (entries_from n keys) = length keys"
  by (simp add: entries_from_def)

lemma entries_from_idx:
  assumes "length keys \<le> 2 ^ 31" and "e \<in> set (entries_from 0 keys)"
  shows "idx e \<noteq> 0"
proof -
  from assms(2) obtain i where i: "i < length keys" "e = \<lparr>idx = of_nat i + 1, hash = keys ! i\<rparr>"
    by (auto simp add: entries_from_set)
  with assms(1) have "i < 2 ^ 31" by simp
  from idx_nonzero [OF this] i(2) show ?thesis by simp
qed

lemma sum_list_length_mset:
  assumes "mset hs = mset bt"
  shows "sum_list (map length hs) = sum_list (map length bt)"
proof -
  have "sum_list (map length hs) = sum_mset (image_mset length (mset hs))"
    by (simp add: sum_mset_sum_list [symmetric])
  also have "\<dots> = sum_list (map length bt)"
    unfolding assms by (simp add: sum_mset_sum_list [symmetric])
  finally show ?thesis .
qed

lemma heads_distinct_mset:
  assumes "mset hs = mset bt"
    and "distinct (map f (filter Q bt))"
  shows "distinct (map f (filter Q hs))"
proof -
  have "mset (map f (filter Q hs)) = mset (map f (filter Q bt))"
    using assms(1) by simp
  from mset_eq_imp_distinct_iff [OF this] assms(2) show ?thesis by simp
qed

lemma sorted_tail_small:
  assumes "sorted_wrt (\<lambda>a b. length b \<le> length a) (pre @ rest)"
    and "rest \<noteq> [] \<longrightarrow> length (hd rest) \<le> n"
  shows "\<forall>b\<in>set rest. length b \<le> n"
proof (cases rest)
  case Nil
  then show ?thesis by simp
next
  case (Cons r rs)
  from assms(1) have "sorted_wrt (\<lambda>a b. length b \<le> length a) (r # rs)"
    unfolding Cons by (simp add: sorted_wrt_append)
  then have "\<forall>b\<in>set rs. length b \<le> length r" by simp
  with assms(2) Cons show ?thesis by auto
qed

lemma build_shape:
  assumes "keys \<noteq> []" and "length keys \<le> 2 ^ 31"
  shows "\<exists>k\<le>31. length keys \<le> 2 ^ k \<and> nextPower2 (length keys) = 2 ^ k \<and> build_mask keys = mask k \<and>
     (\<forall>sorter ord. solve_phase sorter ord keys =
        solve_buckets ord (mask k) (sorter (bucket_table (mask k) (2 ^ k) (entries_from 0 keys)))
          (replicate (2 ^ k) 0) (replicate (2 ^ k) 0))"
proof -
  from nextPower2_pow [OF assms(2)] obtain k where
    k: "k \<le> 31" "nextPower2 (length keys) = 2 ^ k" "length keys \<le> 2 ^ k"
    by blast
  have m: "build_mask keys = mask k"
    unfolding build_mask_def k(2) by (rule size_minus_1)
  have "solve_phase sorter ord keys =
        solve_buckets ord (mask k) (sorter (bucket_table (mask k) (2 ^ k) (entries_from 0 keys)))
          (replicate (2 ^ k) 0) (replicate (2 ^ k) 0)" for sorter ord
    unfolding solve_phase_def Let_def k(2) size_minus_1 unat_size [OF k(1)]
      fill_buckets_table [OF k(1)]
    by simp
  with k m show ?thesis by blast
qed

lemma placed_empty: "placed k 0 {} (replicate (2 ^ k) 0) (replicate (2 ^ k) 0)"
  by (simp add: placed_def)

lemma sorted_buckets_facts:
  fixes k :: nat
  assumes "sort_contract sorter" and "length keys \<le> 2 ^ 31"
  defines "hs \<equiv> sorter (bucket_table (mask k) (2 ^ k) (entries_from 0 keys))"
  shows "\<forall>b\<in>set hs. \<forall>e\<in>set b. idx e \<noteq> 0 \<and> home (mask k) e = home (mask k) (hd b)"
    and "distinct (map (\<lambda>b. home (mask k) (hd b)) (filter (\<lambda>b. b \<noteq> []) hs))"
    and "sorted_wrt (\<lambda>a b. length b \<le> length a) hs"
    and "sum_list (map length hs) = length keys"
    and "\<Union> (set ` set hs) = set (entries_from 0 keys)"
proof -
  let ?bt = "bucket_table (mask k) (2 ^ k) (entries_from 0 keys)"
  have m: "mset hs = mset ?bt" and s: "sorted_wrt (\<lambda>a b. length b \<le> length a) hs"
    using assms(1) unfolding hs_def sort_contract_def by simp_all
  have set_eq: "set hs = set ?bt"
    using m by (rule mset_eq_setD)
  show "\<forall>b\<in>set hs. \<forall>e\<in>set b. idx e \<noteq> 0 \<and> home (mask k) e = home (mask k) (hd b)"
    unfolding set_eq using bucket_table_member entries_from_idx [OF assms(2)] by blast
  show "distinct (map (\<lambda>b. home (mask k) (hd b)) (filter (\<lambda>b. b \<noteq> []) hs))"
    using m bucket_table_heads by (rule heads_distinct_mset)
  show "sorted_wrt (\<lambda>a b. length b \<le> length a) hs"
    by (rule s)
  have h: "\<forall>e\<in>set (entries_from 0 keys). home (mask k) e < 2 ^ k"
    by (simp add: home_lt)
  show "sum_list (map length hs) = length keys"
    using sum_list_length_mset [OF m] bucket_table_total [OF h]
    by (simp add: entries_from_length)
  show "\<Union> (set ` set hs) = set (entries_from 0 keys)"
    unfolding set_eq using h by (rule bucket_table_Union)
qed

lemma placedD:
  "placed k off P values seeds \<Longrightarrow> e \<in> P \<Longrightarrow>
   idx e \<noteq> 0 \<and> qslot (mask k) seeds (hash e) < 2 ^ k \<and>
   values ! qslot (mask k) seeds (hash e) = idx e - off"
  unfolding placed_def by blast

lemma solve_phase_placed:
  assumes sc: "sort_contract sorter" and rc: "range_contract ord"
    and ne: "keys \<noteq> []" and le: "length keys \<le> 2 ^ 31"
  shows "\<exists>k\<le>31. length keys \<le> 2 ^ k \<and> build_mask keys = mask k \<and>
     nextPower2 (length keys) = 2 ^ k \<and>
     (case solve_phase sorter ord keys of
        Inl e \<Rightarrow> e = NoSeed
      | Inr (rest, values, seeds) \<Rightarrow>
          \<exists>pre. sorter (bucket_table (mask k) (2 ^ k) (entries_from 0 keys)) = pre @ rest \<and>
            (\<forall>b\<in>set pre. 1 < length b) \<and> (\<forall>b\<in>set rest. length b \<le> 1) \<and>
            placed k 0 (\<Union> (set ` set pre)) values seeds)"
proof -
  from build_shape [OF ne le] obtain k where k: "k \<le> 31" "length keys \<le> 2 ^ k"
    "build_mask keys = mask k" "nextPower2 (length keys) = 2 ^ k"
    and sp: "solve_phase sorter ord keys =
        solve_buckets ord (mask k) (sorter (bucket_table (mask k) (2 ^ k) (entries_from 0 keys)))
          (replicate (2 ^ k) 0) (replicate (2 ^ k) 0)"
    by blast
  let ?hs = "sorter (bucket_table (mask k) (2 ^ k) (entries_from 0 keys))"
  note f = sorted_buckets_facts [OF sc le, of k]
  have e: "home (mask k) ` {} \<inter> (\<lambda>b. home (mask k) (hd b)) ` {b \<in> set ?hs. b \<noteq> []} = {}"
    by simp
  note inv = solve_buckets_placed [OF rc placed_empty f(1) f(2) e, folded sp]
  have "case solve_phase sorter ord keys of
        Inl e \<Rightarrow> e = NoSeed
      | Inr (rest, values, seeds) \<Rightarrow>
          \<exists>pre. ?hs = pre @ rest \<and>
            (\<forall>b\<in>set pre. 1 < length b) \<and> (\<forall>b\<in>set rest. length b \<le> 1) \<and>
            placed k 0 (\<Union> (set ` set pre)) values seeds"
  proof (cases "solve_phase sorter ord keys")
    case (Inl e)
    with inv show ?thesis by simp
  next
    case (Inr r)
    obtain rest vs sds where r: "r = (rest, vs, sds)" by (cases r)
    from inv Inr r obtain pre where pre: "?hs = pre @ rest" "\<forall>b\<in>set pre. 1 < length b"
      "rest \<noteq> [] \<longrightarrow> length (hd rest) \<le> 1" "placed k 0 (\<Union> (set ` set pre)) vs sds"
      by auto
    have "sorted_wrt (\<lambda>a b. length b \<le> length a) (pre @ rest)"
      using f(3) pre(1) by simp
    from sorted_tail_small [OF this pre(3)] pre Inr r show ?thesis
      by auto
  qed
  with k show ?thesis by blast
qed

lemma after_solve:
  assumes sc: "sort_contract sorter" and rc: "range_contract ord"
    and ne: "keys \<noteq> []" and le: "length keys \<le> 2 ^ 31"
    and sp: "solve_phase sorter ord keys = Inr (rest, values, seeds)"
  shows "\<exists>k\<le>31. length keys \<le> 2 ^ k \<and> build_mask keys = mask k \<and> length values = 2 ^ k \<and>
     (\<forall>b\<in>set rest. length b \<le> 1) \<and>
     sum_list (map length rest) \<le> length (fst (collect_free 0 values)) \<and>
     (\<exists>values' seeds'.
        place_singletons (mask k) rest (fst (collect_free 0 values)) (snd (collect_free 0 values)) seeds =
          Inr (values', seeds') \<and>
        placed k 1 (set (entries_from 0 keys)) values' seeds')"
proof -
  from solve_phase_placed [OF sc rc ne le] sp obtain k pre where k: "k \<le> 31" "length keys \<le> 2 ^ k"
    "build_mask keys = mask k"
    and pre: "sorter (bucket_table (mask k) (2 ^ k) (entries_from 0 keys)) = pre @ rest"
      "\<forall>b\<in>set pre. 1 < length b" "\<forall>b\<in>set rest. length b \<le> 1"
      "placed k 0 (\<Union> (set ` set pre)) values seeds"
    by auto
  let ?hs = "sorter (bucket_table (mask k) (2 ^ k) (entries_from 0 keys))"
  let ?P = "\<Union> (set ` set pre)"
  let ?free = "filter (\<lambda>j. values ! j = 0) [0..<length values]"
  let ?vals = "map (\<lambda>v. if v = 0 then v else v - 1) values"
  note f = sorted_buckets_facts [OF sc le, of k]
  have len: "length values = 2 ^ k"
    using pre(4) by (simp add: placed_def)
  have cf: "fst (collect_free 0 values) = ?free" "snd (collect_free 0 values) = ?vals"
    by (simp_all add: collect_free_zero)
  have pl1: "placed k 1 ?P ?vals seeds"
    using pre(4) by (rule placed_decrement)
  have p2: "\<forall>b\<in>set rest. length b \<le> 1 \<and> (\<forall>e\<in>set b. idx e \<noteq> 0)"
    using pre(3) f(1) unfolding pre(1) by auto
  have p3: "sorted_wrt (\<lambda>a b. length b \<le> length a) rest"
    using f(3) unfolding pre(1) by (simp add: sorted_wrt_append)
  have d: "distinct (map (\<lambda>b. home (mask k) (hd b)) (filter (\<lambda>b. b \<noteq> []) pre) @
      map (\<lambda>b. home (mask k) (hd b)) (filter (\<lambda>b. b \<noteq> []) rest))"
    using f(2) unfolding pre(1) by simp
  then have p4: "distinct (map (\<lambda>b. home (mask k) (hd b)) (filter (\<lambda>b. b \<noteq> []) rest))"
    by simp
  have p5: "home (mask k) ` ?P \<inter> (\<lambda>b. home (mask k) (hd b)) ` {b \<in> set rest. b \<noteq> []} = {}"
  proof -
    have "home (mask k) ` ?P \<subseteq> (\<lambda>b. home (mask k) (hd b)) ` {b \<in> set pre. b \<noteq> []}"
    proof
      fix i assume "i \<in> home (mask k) ` ?P"
      then obtain b e where b: "b \<in> set pre" "e \<in> set b" "i = home (mask k) e"
        by auto
      then have "b \<in> set ?hs" unfolding pre(1) by simp
      with f(1) b have "i = home (mask k) (hd b)" by simp
      moreover have "b \<noteq> []" using b(2) by auto
      ultimately show "i \<in> (\<lambda>b. home (mask k) (hd b)) ` {b \<in> set pre. b \<noteq> []}"
        using b(1) by blast
    qed
    moreover have "(\<lambda>b. home (mask k) (hd b)) ` {b \<in> set pre. b \<noteq> []} \<inter>
        (\<lambda>b. home (mask k) (hd b)) ` {b \<in> set rest. b \<noteq> []} = {}"
      using d by (simp add: Int_commute)
    ultimately show ?thesis by blast
  qed
  have p6: "distinct ?free"
    by simp
  have p7: "\<forall>d\<in>set ?free. d < 2 ^ k \<and> d \<notin> (\<lambda>e. qslot (mask k) seeds (hash e)) ` ?P"
  proof
    fix d assume "d \<in> set ?free"
    then have d: "d < 2 ^ k" "values ! d = 0"
      using len by simp_all
    have "qslot (mask k) seeds (hash e) \<noteq> d" if "e \<in> ?P" for e
    proof -
      have "values ! qslot (mask k) seeds (hash e) \<noteq> 0"
        using placedD [OF pre(4) that] by simp
      with d(2) show ?thesis by auto
    qed
    with d(1) show "d < 2 ^ k \<and> d \<notin> (\<lambda>e. qslot (mask k) seeds (hash e)) ` ?P"
      by auto
  qed
  have p8: "sum_list (map length rest) \<le> length ?free"
  proof -
    have fin: "finite ?P" by simp
    have "card {j. j < 2 ^ k \<and> values ! j \<noteq> 0} \<le> card ?P"
      using pre(4) fin by (rule placed_nonzero_count)
    also have "\<dots> \<le> sum_list (map length pre)"
      by (rule card_Union_buckets)
    finally have nzc: "card {j. j < length values \<and> values ! j \<noteq> 0} \<le> sum_list (map length pre)"
      unfolding len .
    have "sum_list (map length pre) + sum_list (map length rest) = length keys"
      using f(4) unfolding pre(1) by simp
    with k(2) have "sum_list (map length pre) + sum_list (map length rest) \<le> length values"
      unfolding len by simp
    with nzc zero_slots_count [of "values"] show ?thesis
      by linarith
  qed
  from place_singletons_placed [OF k(1) pl1 p2 p3 p4 p5 p6 p7 p8] obtain values' seeds' where
    ps: "place_singletons (mask k) rest ?free ?vals seeds = Inr (values', seeds')"
    and pl: "placed k 1 (?P \<union> \<Union> (set ` set rest)) values' seeds'"
    by blast
  have "?P \<union> \<Union> (set ` set rest) = \<Union> (set ` set ?hs)"
    unfolding pre(1) by auto
  with pl f(5) have "placed k 1 (set (entries_from 0 keys)) values' seeds'"
    by simp
  with ps k len pre(3) p8 show ?thesis
    unfolding cf by blast
qed

section \<open>Lookups in a built table\<close>

lemma NewUint64_cases:
  assumes sc: "sort_contract sorter" and rc: "range_contract ord"
    and ne: "keys \<noteq> []" and le: "length keys \<le> 2 ^ 31" and d: "distinct keys"
  shows "NewUint64 sorter ord keys = Inl NoSeed \<and> solve_phase sorter ord keys = Inl NoSeed \<or>
     (\<exists>t k. NewUint64 sorter ord keys = Inr t \<and> k \<le> 31 \<and> length keys \<le> 2 ^ k \<and>
        Mask t = mask k \<and> placed k 1 (set (entries_from 0 keys)) (Values t) (Seeds t))"
proof -
  have fd: "find_dup (sort keys) = None"
    using d by (simp add: find_dup_sort)
  have unf: "NewUint64 sorter ord keys =
      (case solve_phase sorter ord keys of
         Inl e \<Rightarrow> Inl e
       | Inr (rest, values, seeds) \<Rightarrow>
           (case place_singletons (build_mask keys) rest (fst (collect_free 0 values))
                   (snd (collect_free 0 values)) seeds of
              Inl e \<Rightarrow> Inl e
            | Inr (values'', seeds') \<Rightarrow>
                Inr \<lparr>Values = values'', Seeds = seeds', Mask = build_mask keys\<rparr>))"
    unfolding NewUint64_def using ne le fd
    by (simp add: case_prod_beta split: sum.splits)
  show ?thesis
  proof (cases "solve_phase sorter ord keys")
    case (Inl e)
    with solve_phase_placed [OF sc rc ne le] have "e = NoSeed"
      by auto
    with Inl unf show ?thesis by simp
  next
    case (Inr r)
    obtain rest vs sds where r: "r = (rest, vs, sds)" by (cases r)
    from after_solve [OF sc rc ne le Inr [unfolded r]] obtain k values' seeds' where
      k: "k \<le> 31" "length keys \<le> 2 ^ k" "build_mask keys = mask k"
      and ps: "place_singletons (mask k) rest (fst (collect_free 0 vs)) (snd (collect_free 0 vs)) sds
          = Inr (values', seeds')"
      and pl: "placed k 1 (set (entries_from 0 keys)) values' seeds'"
      by blast
    have "NewUint64 sorter ord keys = Inr \<lparr>Values = values', Seeds = seeds', Mask = mask k\<rparr>"
      unfolding unf Inr r using ps k(3) by simp
    with k pl show ?thesis by auto
  qed
qed

lemma NewUint64_Inr_placed:
  assumes sc: "sort_contract sorter" and rc: "range_contract ord"
    and ne: "keys \<noteq> []" and t: "NewUint64 sorter ord keys = Inr t"
  shows "length keys \<le> 2 ^ 31 \<and> distinct keys \<and>
     (\<exists>k\<le>31. length keys \<le> 2 ^ k \<and> Mask t = mask k \<and>
        placed k 1 (set (entries_from 0 keys)) (Values t) (Seeds t))"
proof -
  have le: "length keys \<le> 2 ^ 31"
    using t ne unfolding NewUint64_def by (simp split: if_splits)
  have "find_dup (sort keys) = None"
    using t ne le unfolding NewUint64_def by (simp split: option.splits)
  then have d: "distinct keys"
    by (simp add: find_dup_sort)
  from NewUint64_cases [OF sc rc ne le d] t le d show ?thesis
    by auto
qed

lemma placed_query_slot:
  assumes pl: "placed k 1 P (Values t) (Seeds t)" and m: "Mask t = mask k"
  shows "query_slot t h = Inr (qslot (mask k) (Seeds t) h)"
    and "qslot (mask k) (Seeds t) h < 2 ^ k"
    and "Query t h = Inr (Values t ! qslot (mask k) (Seeds t) h)"
proof -
  have len: "length (Values t) = 2 ^ k" "length (Seeds t) = 2 ^ k"
    using pl by (simp_all add: placed_def)
  have hm: "unat (h AND mask k) < 2 ^ k"
    by (rule slot_lt)
  show qs: "query_slot t h = Inr (qslot (mask k) (Seeds t) h)"
    using hm len by (simp add: query_slot_def qslot_def m Let_def)
  show lt: "qslot (mask k) (Seeds t) h < 2 ^ k"
  proof (cases "Seeds t ! unat (h AND mask k) AND singletonBit \<noteq> 0")
    case True
    with pl hm have "unat (Seeds t ! unat (h AND mask k) AND payloadMask) < 2 ^ k"
      unfolding placed_def by blast
    with True show ?thesis by (simp add: qslot_def Let_def)
  next
    case False
    then show ?thesis by (simp add: qslot_def Let_def slot_lt)
  qed
  show "Query t h = Inr (Values t ! qslot (mask k) (Seeds t) h)"
    using qs lt len by (simp add: Query_def)
qed

lemma placed_values:
  assumes pl: "placed k 1 (set (entries_from 0 keys)) values seeds"
    and le: "length keys \<le> 2 ^ 31" and ne: "keys \<noteq> []" and j: "j < 2 ^ k"
  shows "\<exists>i<length keys. values ! j = of_nat i \<and> (values ! j \<noteq> 0 \<longrightarrow> qslot (mask k) seeds (keys ! i) = j)"
proof (cases "values ! j = 0")
  case True
  with ne show ?thesis by (intro exI [of _ 0]) simp
next
  case False
  with pl j obtain e where e: "e \<in> set (entries_from 0 keys)" "qslot (mask k) seeds (hash e) = j"
    unfolding placed_def by blast
  from e(1) obtain i where i: "i < length keys" "e = \<lparr>idx = of_nat i + 1, hash = keys ! i\<rparr>"
    by (auto simp add: entries_from_set)
  from placedD [OF pl e(1)] e(2) i show ?thesis
    by (intro exI [of _ i]) simp
qed

lemma placed_member:
  assumes pl: "placed k 1 (set (entries_from 0 keys)) values seeds" and i: "i < length keys"
  shows "values ! qslot (mask k) seeds (keys ! i) = of_nat i"
proof -
  have "\<lparr>idx = of_nat i + 1, hash = keys ! i\<rparr> \<in> set (entries_from 0 keys)"
    using i by (auto simp add: entries_from_set)
  from placedD [OF pl this] show ?thesis by simp
qed

section \<open>Claims about lookups\<close>

lemma sort_contract_stable_sorter: "sort_contract stable_sorter"
proof -
  have "sorted_wrt (\<lambda>a b. length b \<le> length a) (sort_key (\<lambda>b. - int (length b)) h)" for h :: "entry list list"
  proof -
    have "sorted (map (\<lambda>b. - int (length b)) (sort_key (\<lambda>b. - int (length b)) h))"
      by (rule sorted_sort_key)
    then show ?thesis
      by (simp add: sorted_map)
  qed
  then show ?thesis
    by (simp add: sort_contract_def stable_sorter_def)
qed

lemma example_queries:
  "Query \<lparr>Values = [3, 1, 4, 0, 0, 0, 0, 2],
      Seeds = [1, 2147483648, 0, 0, 2147483649, 2147483650, 0, 0], Mask = 7\<rparr> 8 = Inr 2"
  "Query \<lparr>Values = [3, 1, 4, 0, 0, 0, 0, 2],
      Seeds = [1, 2147483648, 0, 0, 2147483649, 2147483650, 0, 0], Mask = 7\<rparr> 0 = Inr 0"
  "Query \<lparr>Values = [3, 1, 4, 0, 0, 0, 0, 2],
      Seeds = [1, 2147483648, 0, 0, 2147483649, 2147483650, 0, 0], Mask = 7\<rparr> 6 = Inr 0"
  "Query \<lparr>Values = [3, 1, 4, 0, 0, 0, 0, 2],
      Seeds = [1, 2147483648, 0, 0, 2147483649, 2147483650, 0, 0], Mask = 7\<rparr> 77 = Inr 4"
  by code_simp+

lemma example_slots:
  "map (query_slot \<lparr>Values = [3, 1, 4, 0, 0, 0, 0, 2],
      Seeds = [1, 2147483648, 0, 0, 2147483649, 2147483650, 0, 0], Mask = 7\<rparr>) [0, 4, 8, 1, 5, 6, 77] =
   [Inr 5, Inr 1, Inr 7, Inr 0, Inr 2, Inr 3, Inr 2]"
  by code_simp

text \<open>
  Claim C1. In a table that \<open>NewUint64\<close> returns, \<open>Query\<close> of the \<open>i\<close>-th input
  fingerprint returns \<open>i\<close> (as an \<open>int32\<close>, which holds \<open>i\<close> exactly). A returned table
  implies that the fingerprints were pairwise distinct, so distinctness is not a premise.
  \<open>sorter\<close> is any sort meeting the contract of \<open>sort.Slice\<close>, \<open>ord\<close> any order of \<open>range\<close>
  over the scratch map.
\<close>

theorem query_member:
  assumes "sort_contract sorter" and "range_contract ord"
    and "NewUint64 sorter ord keys = Inr t" and "i < length keys"
  shows "Query t (keys ! i) = Inr (of_nat i) \<and> sint (of_nat i :: 32 word) = int i"
proof -
  have ne: "keys \<noteq> []"
    using assms(4) by auto
  from NewUint64_Inr_placed [OF assms(1,2) ne assms(3)] obtain k where
    le: "length keys \<le> 2 ^ 31" and m: "Mask t = mask k"
    and pl: "placed k 1 (set (entries_from 0 keys)) (Values t) (Seeds t)"
    by blast
  have "Query t (keys ! i) = Inr (of_nat i)"
    using placed_query_slot(3) [OF pl m] placed_member [OF pl assms(4)] by simp
  moreover have "i < 2 ^ 31"
    using assms(4) le by simp
  ultimately show ?thesis
    by (simp add: sint_ordinal)
qed

theorem query_member_witness:
  "sort_contract stable_sorter \<and> range_contract insertion_order \<and>
   NewUint64 stable_sorter insertion_order [0, 4, 8, 1, 5] =
     Inr \<lparr>Values = [3, 1, 4, 0, 0, 0, 0, 2],
          Seeds = [1, 2147483648, 0, 0, 2147483649, 2147483650, 0, 0], Mask = 7\<rparr> \<and>
   (2 :: nat) < length [0, 4, 8, 1, 5 :: 64 word] \<and>
   Query \<lparr>Values = [3, 1, 4, 0, 0, 0, 0, 2],
          Seeds = [1, 2147483648, 0, 0, 2147483649, 2147483650, 0, 0], Mask = 7\<rparr>
     ([0, 4, 8, 1, 5] ! 2) = Inr (of_nat 2) \<and>
   sint (of_nat 2 :: 32 word) = int 2"
proof -
  have i: "(2 :: nat) < length [0, 4, 8, 1, 5 :: 64 word]"
    by simp
  from query_member [OF sort_contract_stable_sorter range_contract_insertion_order example_table i]
    sort_contract_stable_sorter range_contract_insertion_order example_table i
  show ?thesis by blast
qed

lemma colliding_pair_no_seed:
  "seed_search 1 [0, 0] [\<lparr>idx = 1, hash = 0\<rparr>, \<lparr>idx = 2, hash = 9223372036854775808\<rparr>] 0 = Inl NoSeed"
proof -
  let ?b = "[\<lparr>idx = 1, hash = 0\<rparr>, \<lparr>idx = 2, hash = 9223372036854775808\<rparr>]"
  have rng: "\<forall>x :: 64 word. unat (x AND 1) < length [0, 0 :: 32 word]"
  proof
    fix x :: "64 word"
    have "unat (x AND mask 1) < 2 ^ 1"
      by (rule slot_lt)
    then show "unat (x AND 1) < length [0, 0 :: 32 word]"
      by simp
  qed
  have nz: "\<forall>e\<in>set ?b. idx e \<noteq> 0"
    by simp
  have z: "(0 :: 64 word) < 2 ^ 31"
    by simp
  have bad: "\<not> seed_ok 1 [0, 0] ?b s" for s
    using mix_low_bit [of s] by (simp add: seed_ok_def slot_of_def)
  from seed_search_char [OF rng nz z] bad show ?thesis
    by (cases "seed_search 1 [0, 0] ?b 0") auto
qed

lemma no_seed_example:
  "NewUint64 stable_sorter insertion_order [0, 9223372036854775808] = Inl NoSeed"
proof -
  let ?b = "[\<lparr>idx = 1, hash = 0\<rparr>, \<lparr>idx = 2, hash = 9223372036854775808\<rparr>]"
  have fd: "find_dup (sort [0, 9223372036854775808 :: 64 word]) = None"
    by (simp add: find_dup_sort)
  have np: "nextPower2 (length [0, 9223372036854775808 :: 64 word]) = 2"
    by code_simp
  have fb: "fill_buckets 1 0 [0, 9223372036854775808] (replicate 2 []) = Inr [?b, []]"
    by code_simp
  have so: "stable_sorter [?b, []] = [?b, []]"
    by code_simp
  have r2: "replicate 2 (0 :: 32 word) = [0, 0]"
    by code_simp
  have sb: "solve_buckets insertion_order 1 [?b, []] [0, 0] [0, 0] = Inl NoSeed"
    by (simp add: colliding_pair_no_seed)
  have u: "unat (of_nat 2 :: 64 word) = 2" "(of_nat 2 :: 64 word) - 1 = 1"
    by simp_all
  have sp: "solve_phase stable_sorter insertion_order [0, 9223372036854775808] = Inl NoSeed"
    unfolding solve_phase_def Let_def np u fb sum.case so r2 sb ..
  have "\<not> 2 ^ 31 < length [0, 9223372036854775808 :: 64 word]"
    by simp
  then show ?thesis
    unfolding NewUint64_def fd sp by simp
qed

text \<open>
  Claim C2 says that \<open>NewUint64\<close> succeeds on every sequence of at most \<open>2^31\<close> pairwise
  distinct fingerprints. It does not: the fingerprints \<open>0\<close> and \<open>2^63 = 9223372036854775808\<close> share home slot 0 in
  a table of two slots, and the low bit of \<open>xorshiftMult64 (h + seed)\<close> does not depend on
  bit 63 of \<open>h\<close>, so every seed sends both to the same slot and the search ends with
  \<open>no seed < 2^31\<close>.
\<close>

theorem build_fails_counterexample:
  "sort_contract stable_sorter \<and> range_contract insertion_order \<and>
   distinct [0, 9223372036854775808 :: 64 word] \<and>
   length [0, 9223372036854775808 :: 64 word] \<le> 2 ^ 31 \<and>
   NewUint64 stable_sorter insertion_order [0, 9223372036854775808] = Inl NoSeed"
  using sort_contract_stable_sorter range_contract_insertion_order no_seed_example by simp

text \<open>
  Claim C2, amended. On pairwise distinct fingerprints, at most \<open>2^31\<close> of them,
  \<open>NewUint64\<close> either fails with \<open>no seed < 2^31\<close> or returns a table in which \<open>Query\<close> of
  the \<open>i\<close>-th fingerprint is \<open>i\<close>; it fails in no other way.
\<close>

theorem build_succeeds_or_no_seed:
  assumes "sort_contract sorter" and "range_contract ord"
    and "distinct keys" and "length keys \<le> 2 ^ 31"
  shows "NewUint64 sorter ord keys = Inl NoSeed \<or>
     (\<exists>t. NewUint64 sorter ord keys = Inr t \<and>
        (\<forall>i<length keys. Query t (keys ! i) = Inr (of_nat i)))"
proof (cases "keys = []")
  case True
  then show ?thesis by (simp add: NewUint64_def)
next
  case False
  from NewUint64_cases [OF assms(1,2) False assms(4,3)] show ?thesis
  proof
    assume "NewUint64 sorter ord keys = Inl NoSeed \<and> solve_phase sorter ord keys = Inl NoSeed"
    then show ?thesis by simp
  next
    assume "\<exists>t k. NewUint64 sorter ord keys = Inr t \<and> k \<le> 31 \<and> length keys \<le> 2 ^ k \<and>
        Mask t = mask k \<and> placed k 1 (set (entries_from 0 keys)) (Values t) (Seeds t)"
    then obtain t k where t: "NewUint64 sorter ord keys = Inr t" and m: "Mask t = mask k"
      and pl: "placed k 1 (set (entries_from 0 keys)) (Values t) (Seeds t)"
      by blast
    have "Query t (keys ! i) = Inr (of_nat i)" if "i < length keys" for i
      using placed_query_slot(3) [OF pl m] placed_member [OF pl that] by simp
    with t show ?thesis by blast
  qed
qed

theorem build_succeeds_or_no_seed_witness:
  "sort_contract stable_sorter \<and> range_contract insertion_order \<and>
   distinct [0, 4, 8, 1, 5 :: 64 word] \<and> length [0, 4, 8, 1, 5 :: 64 word] \<le> 2 ^ 31 \<and>
   NewUint64 stable_sorter insertion_order [0, 4, 8, 1, 5] \<noteq> Inl NoSeed \<and>
   (\<exists>t. NewUint64 stable_sorter insertion_order [0, 4, 8, 1, 5] = Inr t \<and>
      Query t ([0, 4, 8, 1, 5] ! 3) = Inr (of_nat 3))"
proof -
  have d: "distinct [0, 4, 8, 1, 5 :: 64 word]"
    by simp
  have l: "length [0, 4, 8, 1, 5 :: 64 word] \<le> 2 ^ 31"
    by simp
  have n: "NewUint64 stable_sorter insertion_order [0, 4, 8, 1, 5] \<noteq> Inl NoSeed"
    by (simp add: example_table)
  from build_succeeds_or_no_seed [OF sort_contract_stable_sorter range_contract_insertion_order d l] n
  obtain t where t: "NewUint64 stable_sorter insertion_order [0, 4, 8, 1, 5] = Inr t"
    and q: "\<forall>i<length [0, 4, 8, 1, 5 :: 64 word]. Query t ([0, 4, 8, 1, 5] ! i) = Inr (of_nat i)"
    by blast
  have "(3 :: nat) < length [0, 4, 8, 1, 5 :: 64 word]"
    by simp
  with q have "Query t ([0, 4, 8, 1, 5] ! 3) = Inr (of_nat 3)"
    by blast
  with t sort_contract_stable_sorter range_contract_insertion_order d l n show ?thesis
    by blast
qed

lemma table_values_range:
  assumes sc: "sort_contract sorter" and rc: "range_contract ord"
    and ne: "keys \<noteq> []" and t: "NewUint64 sorter ord keys = Inr t"
  shows "\<exists>k\<le>31. Mask t = mask k \<and> length (Values t) = 2 ^ k \<and> length (Seeds t) = 2 ^ k \<and>
      length keys \<le> 2 ^ k \<and>
      placed k 1 (set (entries_from 0 keys)) (Values t) (Seeds t) \<and>
      (\<forall>j<2 ^ k. 0 \<le> sint (Values t ! j) \<and> sint (Values t ! j) < int (length keys))"
proof -
  from NewUint64_Inr_placed [OF sc rc ne t] obtain k where
    le: "length keys \<le> 2 ^ 31" and k: "k \<le> 31" "length keys \<le> 2 ^ k" and m: "Mask t = mask k"
    and pl: "placed k 1 (set (entries_from 0 keys)) (Values t) (Seeds t)"
    by blast
  have len: "length (Values t) = 2 ^ k" "length (Seeds t) = 2 ^ k"
    using pl by (simp_all add: placed_def)
  have "0 \<le> sint (Values t ! j) \<and> sint (Values t ! j) < int (length keys)" if "j < 2 ^ k" for j
  proof -
    from placed_values [OF pl le ne that] obtain i where i: "i < length keys" "Values t ! j = of_nat i"
      by blast
    have "i < 2 ^ 31"
      using i(1) le by simp
    from sint_ordinal [OF this] i show ?thesis by simp
  qed
  with k m pl len show ?thesis by blast
qed

text \<open>
  Claim C3. In a table built from a non-empty key sequence, \<open>Query\<close> of any fingerprint
  \<open>h\<close>, in the build set or not, reads \<open>Seeds\<close> and \<open>Values\<close> in bounds: the home slot is
  below the table size, so is the payload of a singleton descriptor found there, so is the
  recomputed displaced slot, and the result is an ordinal in \<open>[0, N)\<close>. In the model an
  out-of-bounds read is the result \<open>Inl IndexOutOfRange\<close>.
\<close>

theorem query_in_bounds:
  assumes "sort_contract sorter" and "range_contract ord"
    and "keys \<noteq> []" and "NewUint64 sorter ord keys = Inr t"
  shows "length (Seeds t) = length (Values t) \<and>
     unat (h AND Mask t) < length (Seeds t) \<and>
     (Seeds t ! unat (h AND Mask t) AND singletonBit \<noteq> 0 \<longrightarrow>
        unat (Seeds t ! unat (h AND Mask t) AND payloadMask) < length (Values t)) \<and>
     unat (xorshiftMult64 (h + ucast (Seeds t ! unat (h AND Mask t) AND payloadMask)) AND Mask t)
        < length (Values t) \<and>
     (\<exists>j v. query_slot t h = Inr j \<and> j < length (Values t) \<and> Query t h = Inr v \<and>
        v = Values t ! j \<and> 0 \<le> sint v \<and> sint v < int (length keys))"
proof -
  from table_values_range [OF assms] obtain k where m: "Mask t = mask k"
    and len: "length (Values t) = 2 ^ k" "length (Seeds t) = 2 ^ k"
    and pl: "placed k 1 (set (entries_from 0 keys)) (Values t) (Seeds t)"
    and rng: "\<forall>j<2 ^ k. 0 \<le> sint (Values t ! j) \<and> sint (Values t ! j) < int (length keys)"
    by blast
  note q = placed_query_slot [OF pl m, of h]
  have hm: "unat (h AND Mask t) < 2 ^ k"
    unfolding m by (rule slot_lt)
  have pay: "unat (Seeds t ! unat (h AND Mask t) AND payloadMask) < 2 ^ k"
    if "Seeds t ! unat (h AND Mask t) AND singletonBit \<noteq> 0"
    using pl hm that unfolding placed_def by blast
  have disp: "unat (xorshiftMult64 (h + ucast (Seeds t ! unat (h AND Mask t) AND payloadMask)) AND Mask t)
      < 2 ^ k"
    unfolding m by (rule slot_lt)
  have "\<exists>j v. query_slot t h = Inr j \<and> j < length (Values t) \<and> Query t h = Inr v \<and>
        v = Values t ! j \<and> 0 \<le> sint v \<and> sint v < int (length keys)"
    using q rng len by auto
  with hm pay disp len show ?thesis by simp
qed

theorem query_in_bounds_witness:
  "sort_contract stable_sorter \<and> range_contract insertion_order \<and> [0, 4, 8, 1, 5 :: 64 word] \<noteq> [] \<and>
   NewUint64 stable_sorter insertion_order [0, 4, 8, 1, 5] =
     Inr \<lparr>Values = [3, 1, 4, 0, 0, 0, 0, 2],
          Seeds = [1, 2147483648, 0, 0, 2147483649, 2147483650, 0, 0], Mask = 7\<rparr> \<and>
   (\<exists>j v. query_slot \<lparr>Values = [3, 1, 4, 0, 0, 0, 0, 2],
          Seeds = [1, 2147483648, 0, 0, 2147483649, 2147483650, 0, 0], Mask = 7\<rparr> 77 = Inr j \<and>
      j < length [3, 1, 4, 0, 0, 0, 0, 2 :: 32 word] \<and>
      Query \<lparr>Values = [3, 1, 4, 0, 0, 0, 0, 2],
          Seeds = [1, 2147483648, 0, 0, 2147483649, 2147483650, 0, 0], Mask = 7\<rparr> 77 = Inr v \<and>
      0 \<le> sint v \<and> sint v < int (length [0, 4, 8, 1, 5 :: 64 word]))"
proof -
  have ne: "[0, 4, 8, 1, 5 :: 64 word] \<noteq> []"
    by simp
  from query_in_bounds [OF sort_contract_stable_sorter range_contract_insertion_order ne example_table,
      of 77]
  have "\<exists>j v. query_slot \<lparr>Values = [3, 1, 4, 0, 0, 0, 0, 2],
          Seeds = [1, 2147483648, 0, 0, 2147483649, 2147483650, 0, 0], Mask = 7\<rparr> 77 = Inr j \<and>
      j < length [3, 1, 4, 0, 0, 0, 0, 2 :: 32 word] \<and>
      Query \<lparr>Values = [3, 1, 4, 0, 0, 0, 0, 2],
          Seeds = [1, 2147483648, 0, 0, 2147483649, 2147483650, 0, 0], Mask = 7\<rparr> 77 = Inr v \<and>
      0 \<le> sint v \<and> sint v < int (length [0, 4, 8, 1, 5 :: 64 word])"
    by (simp only: Table.simps) blast
  with sort_contract_stable_sorter range_contract_insertion_order ne example_table show ?thesis
    by blast
qed

text \<open>
  Claim C7. \<open>NewUint64\<close> of the empty sequence returns the empty table. On it \<open>Query\<close>
  returns \<open>-1\<close> for every fingerprint without reading \<open>Seeds\<close> or \<open>Values\<close> (the read that
  \<open>query_slot\<close> would make is out of range there). And for a table built from \<open>keys\<close>,
  \<open>Query\<close> returns \<open>-1\<close> exactly when \<open>keys\<close> is empty.
\<close>

theorem empty_table_sentinel:
  "NewUint64 sorter ord [] = Inr \<lparr>Values = [], Seeds = [], Mask = 0\<rparr> \<and>
   length (Values \<lparr>Values = [], Seeds = [], Mask = 0\<rparr>) = 0 \<and>
   Query \<lparr>Values = [], Seeds = [], Mask = 0\<rparr> h = Inr (- 1) \<and>
   query_slot \<lparr>Values = [], Seeds = [], Mask = 0\<rparr> h = Inl IndexOutOfRange \<and>
   (sort_contract sorter \<and> range_contract ord \<and> NewUint64 sorter ord keys = Inr t \<longrightarrow>
      (Query t h' = Inr (- 1) \<longleftrightarrow> keys = []))"
proof -
  have a: "NewUint64 sorter ord [] = Inr \<lparr>Values = [], Seeds = [], Mask = 0\<rparr>"
    by (simp add: NewUint64_def)
  have b: "Query \<lparr>Values = [], Seeds = [], Mask = 0\<rparr> x = Inr (- 1)" for x
    by (simp add: Query_def)
  have c: "query_slot \<lparr>Values = [], Seeds = [], Mask = 0\<rparr> h = Inl IndexOutOfRange"
    by (simp add: query_slot_def)
  have d: "Query t h' = Inr (- 1) \<longleftrightarrow> keys = []"
    if sc: "sort_contract sorter" and rc: "range_contract ord" and t: "NewUint64 sorter ord keys = Inr t"
  proof (cases "keys = []")
    case True
    with t a have "t = \<lparr>Values = [], Seeds = [], Mask = 0\<rparr>"
      by simp
    with b True show ?thesis by simp
  next
    case False
    from table_values_range [OF sc rc False t] obtain k where m: "Mask t = mask k"
      and pl: "placed k 1 (set (entries_from 0 keys)) (Values t) (Seeds t)"
      and rng: "\<forall>j<2 ^ k. 0 \<le> sint (Values t ! j) \<and> sint (Values t ! j) < int (length keys)"
      by blast
    note q = placed_query_slot [OF pl m, of h']
    from q(2) rng have "0 \<le> sint (Values t ! qslot (mask k) (Seeds t) h')"
      by blast
    moreover have "sint (- 1 :: 32 word) = - 1"
      by simp
    ultimately have "Values t ! qslot (mask k) (Seeds t) h' \<noteq> - 1"
      by auto
    with q(3) False show ?thesis by simp
  qed
  from a b c d show ?thesis by simp
qed

theorem empty_table_sentinel_witness:
  "sort_contract stable_sorter \<and> range_contract insertion_order \<and>
   NewUint64 stable_sorter insertion_order [0, 4, 8, 1, 5] =
     Inr \<lparr>Values = [3, 1, 4, 0, 0, 0, 0, 2],
          Seeds = [1, 2147483648, 0, 0, 2147483649, 2147483650, 0, 0], Mask = 7\<rparr> \<and>
   [0, 4, 8, 1, 5 :: 64 word] \<noteq> [] \<and>
   Query \<lparr>Values = [3, 1, 4, 0, 0, 0, 0, 2],
          Seeds = [1, 2147483648, 0, 0, 2147483649, 2147483650, 0, 0], Mask = 7\<rparr> 77 \<noteq> Inr (- 1) \<and>
   NewUint64 stable_sorter insertion_order [] = Inr \<lparr>Values = [], Seeds = [], Mask = 0\<rparr> \<and>
   Query \<lparr>Values = [], Seeds = [], Mask = 0\<rparr> 77 = Inr (- 1)"
proof -
  have ne: "[0, 4, 8, 1, 5 :: 64 word] \<noteq> []"
    by simp
  from empty_table_sentinel [of stable_sorter insertion_order 77 "[0, 4, 8, 1, 5]"
      "\<lparr>Values = [3, 1, 4, 0, 0, 0, 0, 2],
          Seeds = [1, 2147483648, 0, 0, 2147483649, 2147483650, 0, 0], Mask = 7\<rparr>" 77]
    sort_contract_stable_sorter range_contract_insertion_order example_table ne
  show ?thesis by blast
qed

text \<open>
  Claim C10. In a table built from a non-empty key sequence, a slot of \<open>Values\<close> that no
  key's lookup reads (no ordinal was assigned to it) holds 0, which is also the ordinal
  of the first key. So a lookup that lands on such a slot, as the lookup of a fingerprint
  outside the build set can, returns 0, the same answer as for \<open>keys ! 0\<close>.
\<close>

theorem unused_slots_zero:
  assumes "sort_contract sorter" and "range_contract ord"
    and "keys \<noteq> []" and "NewUint64 sorter ord keys = Inr t"
  shows "(\<forall>j<length (Values t).
            (\<forall>i<length keys. query_slot t (keys ! i) \<noteq> Inr j) \<longrightarrow> Values t ! j = 0) \<and>
         Query t (keys ! 0) = Inr 0 \<and>
         (\<forall>h j. query_slot t h = Inr j \<and> (\<forall>i<length keys. query_slot t (keys ! i) \<noteq> Inr j) \<longrightarrow>
            Query t h = Inr 0 \<and> Query t h = Query t (keys ! 0))"
proof -
  from table_values_range [OF assms] obtain k where m: "Mask t = mask k"
    and len: "length (Values t) = 2 ^ k"
    and pl: "placed k 1 (set (entries_from 0 keys)) (Values t) (Seeds t)"
    by blast
  have le: "length keys \<le> 2 ^ 31"
    using NewUint64_Inr_placed [OF assms] by simp
  note q = placed_query_slot [OF pl m]
  have unused: "Values t ! j = 0"
    if j: "j < length (Values t)" and u: "\<forall>i<length keys. query_slot t (keys ! i) \<noteq> Inr j" for j
  proof (rule ccontr)
    assume nz: "Values t ! j \<noteq> 0"
    from placed_values [OF pl le assms(3)] j len obtain i where
      i: "i < length keys" "Values t ! j \<noteq> 0 \<longrightarrow> qslot (mask k) (Seeds t) (keys ! i) = j"
      by metis
    with nz q(1) [of "keys ! i"] have "query_slot t (keys ! i) = Inr j"
      by simp
    with u i(1) show False by blast
  qed
  have "0 < length keys"
    using assms(3) by simp
  from placed_member [OF pl this] q(3) [of "keys ! 0"] have first: "Query t (keys ! 0) = Inr 0"
    by simp
  have "Query t h = Inr 0 \<and> Query t h = Query t (keys ! 0)"
    if h: "query_slot t h = Inr j" and u: "\<forall>i<length keys. query_slot t (keys ! i) \<noteq> Inr j" for h j
  proof -
    from h q(1) [of h] have j: "j = qslot (mask k) (Seeds t) h"
      by simp
    with q(2) [of h] len have "j < length (Values t)"
      by simp
    from unused [OF this u] q(3) [of h] j first show ?thesis
      by simp
  qed
  with unused first show ?thesis by blast
qed

theorem unused_slots_zero_witness:
  "sort_contract stable_sorter \<and> range_contract insertion_order \<and> [0, 4, 8, 1, 5 :: 64 word] \<noteq> [] \<and>
   NewUint64 stable_sorter insertion_order [0, 4, 8, 1, 5] =
     Inr \<lparr>Values = [3, 1, 4, 0, 0, 0, 0, 2],
          Seeds = [1, 2147483648, 0, 0, 2147483649, 2147483650, 0, 0], Mask = 7\<rparr> \<and>
   6 \<notin> set [0, 4, 8, 1, 5 :: 64 word] \<and>
   query_slot \<lparr>Values = [3, 1, 4, 0, 0, 0, 0, 2],
          Seeds = [1, 2147483648, 0, 0, 2147483649, 2147483650, 0, 0], Mask = 7\<rparr> 6 = Inr 3 \<and>
   map (query_slot \<lparr>Values = [3, 1, 4, 0, 0, 0, 0, 2],
          Seeds = [1, 2147483648, 0, 0, 2147483649, 2147483650, 0, 0], Mask = 7\<rparr>) [0, 4, 8, 1, 5] =
     [Inr 5, Inr 1, Inr 7, Inr 0, Inr 2] \<and>
   Query \<lparr>Values = [3, 1, 4, 0, 0, 0, 0, 2],
          Seeds = [1, 2147483648, 0, 0, 2147483649, 2147483650, 0, 0], Mask = 7\<rparr> 6 = Inr 0 \<and>
   Query \<lparr>Values = [3, 1, 4, 0, 0, 0, 0, 2],
          Seeds = [1, 2147483648, 0, 0, 2147483649, 2147483650, 0, 0], Mask = 7\<rparr> 6 =
   Query \<lparr>Values = [3, 1, 4, 0, 0, 0, 0, 2],
          Seeds = [1, 2147483648, 0, 0, 2147483649, 2147483650, 0, 0], Mask = 7\<rparr> ([0, 4, 8, 1, 5] ! 0)"
proof -
  let ?T = "\<lparr>Values = [3, 1, 4, 0, 0, 0, 0, 2],
          Seeds = [1, 2147483648, 0, 0, 2147483649, 2147483650, 0, 0], Mask = 7\<rparr>"
  have ne: "[0, 4, 8, 1, 5 :: 64 word] \<noteq> []"
    by simp
  have nm: "6 \<notin> set [0, 4, 8, 1, 5 :: 64 word]"
    by simp
  have sl: "map (query_slot ?T) [0, 4, 8, 1, 5, 6, 77] = [Inr 5, Inr 1, Inr 7, Inr 0, Inr 2, Inr 3, Inr 2]"
    by (rule example_slots)
  then have s6: "query_slot ?T 6 = Inr 3"
    and sk: "map (query_slot ?T) [0, 4, 8, 1, 5] = [Inr 5, Inr 1, Inr 7, Inr 0, Inr 2]"
    by simp_all
  have "query_slot ?T ([0, 4, 8, 1, 5] ! i) \<noteq> Inr 3" if "i < length [0, 4, 8, 1, 5 :: 64 word]" for i
  proof -
    have "map (query_slot ?T) [0, 4, 8, 1, 5] ! i \<noteq> Inr 3"
      unfolding sk using that by (auto simp add: nth_Cons' )
    then show ?thesis
      using that by (simp only: nth_map length_map not_False_eq_True)
  qed
  then have u: "\<forall>i<length [0, 4, 8, 1, 5 :: 64 word]. query_slot ?T ([0, 4, 8, 1, 5] ! i) \<noteq> Inr 3"
    by blast
  from unused_slots_zero [OF sort_contract_stable_sorter range_contract_insertion_order ne example_table]
  have "\<forall>h j. query_slot ?T h = Inr j \<and>
      (\<forall>i<length [0, 4, 8, 1, 5 :: 64 word]. query_slot ?T ([0, 4, 8, 1, 5] ! i) \<noteq> Inr j) \<longrightarrow>
      Query ?T h = Inr 0 \<and> Query ?T h = Query ?T ([0, 4, 8, 1, 5] ! 0)"
    by blast
  with s6 u have "Query ?T 6 = Inr 0 \<and> Query ?T 6 = Query ?T ([0, 4, 8, 1, 5] ! 0)"
    by blast
  with sort_contract_stable_sorter range_contract_insertion_order ne example_table nm s6 sk
  show ?thesis by blast
qed

section \<open>Claims about the construction\<close>

lemma small_buckets_count:
  "\<forall>b\<in>set bs. length b \<le> 1 \<Longrightarrow> sum_list (map length bs) = length (filter (\<lambda>b. b \<noteq> []) bs)"
proof (induction bs)
  case Nil
  show ?case by simp
next
  case (Cons b bs)
  then have "length b \<le> 1" by simp
  then have "length b = (if b = [] then 0 else 1)"
    by (cases b) auto
  with Cons show ?case by simp
qed

lemma free_list_ascending: "sorted_wrt (<) (filter P [0..<n])"
  by (rule sorted_wrt_filter) (simp add: sorted_wrt_upt)

text \<open>
  Claim C9. Once the multi-key loop has ended, the free-list is collected in ascending
  slot order, holds exactly the slots still 0, and is at least as long as the number of
  single-member buckets left (the buckets left have at most one member each); the
  singleton loop therefore never pops an empty free-list: it ends with a result, not with
  the panic of \<open>free[0]\<close>.
\<close>

theorem singleton_phase_never_fails:
  assumes "sort_contract sorter" and "range_contract ord"
    and "keys \<noteq> []" and "length keys \<le> 2 ^ 31"
    and "solve_phase sorter ord keys = Inr (rest, values, seeds)"
    and "collect_free 0 values = (free, values')"
  shows "sorted_wrt (<) free \<and> set free = {j. j < length values \<and> values ! j = 0} \<and>
     (\<forall>b\<in>set rest. length b \<le> 1) \<and>
     length (filter (\<lambda>b. b \<noteq> []) rest) \<le> length free \<and>
     (\<exists>r. place_singletons (build_mask keys) rest free values' seeds = Inr r)"
proof -
  from after_solve [OF assms(1-5)] obtain k values'' seeds' where
    m: "build_mask keys = mask k"
    and small: "\<forall>b\<in>set rest. length b \<le> 1"
    and enough: "sum_list (map length rest) \<le> length (fst (collect_free 0 values))"
    and ps: "place_singletons (mask k) rest (fst (collect_free 0 values)) (snd (collect_free 0 values)) seeds =
        Inr (values'', seeds')"
    by blast
  have free: "free = filter (\<lambda>j. values ! j = 0) [0..<length values]"
    using assms(6) by (simp add: collect_free_zero)
  have "sorted_wrt (<) free"
    unfolding free by (rule free_list_ascending)
  moreover have "set free = {j. j < length values \<and> values ! j = 0}"
    unfolding free by auto
  moreover have "length (filter (\<lambda>b. b \<noteq> []) rest) \<le> length free"
    using enough small_buckets_count [OF small] assms(6) by simp
  moreover have "place_singletons (build_mask keys) rest free values' seeds = Inr (values'', seeds')"
    using ps assms(6) m by simp
  ultimately show ?thesis
    using small by blast
qed

theorem singleton_phase_never_fails_witness:
  "sort_contract stable_sorter \<and> range_contract insertion_order \<and>
   [0, 4, 8, 1, 5 :: 64 word] \<noteq> [] \<and> length [0, 4, 8, 1, 5 :: 64 word] \<le> 2 ^ 31 \<and>
   solve_phase stable_sorter insertion_order [0, 4, 8, 1, 5] =
      Inr ([[\<lparr>idx = 4, hash = 1\<rparr>], [\<lparr>idx = 2, hash = 4\<rparr>], [\<lparr>idx = 5, hash = 5\<rparr>], [], [], [], []],
        [0, 0, 0, 0, 0, 1, 0, 3], [1, 0, 0, 0, 0, 0, 0, 0]) \<and>
   collect_free 0 [0, 0, 0, 0, 0, 1, 0, 3] = ([0, 1, 2, 3, 4, 6], [0, 0, 0, 0, 0, 0, 0, 2]) \<and>
   sorted_wrt (<) [0, 1, 2, 3, 4, 6 :: nat] \<and>
   length (filter (\<lambda>b. b \<noteq> [])
     [[\<lparr>idx = 4, hash = 1\<rparr>], [\<lparr>idx = 2, hash = 4\<rparr>], [\<lparr>idx = 5, hash = 5\<rparr>], [], [], [], []])
     \<le> length [0, 1, 2, 3, 4, 6 :: nat] \<and>
   (\<exists>r. place_singletons (build_mask [0, 4, 8, 1, 5])
       [[\<lparr>idx = 4, hash = 1\<rparr>], [\<lparr>idx = 2, hash = 4\<rparr>], [\<lparr>idx = 5, hash = 5\<rparr>], [], [], [], []]
       [0, 1, 2, 3, 4, 6] [0, 0, 0, 0, 0, 0, 0, 2] [1, 0, 0, 0, 0, 0, 0, 0] = Inr r)"
proof -
  have ne: "[0, 4, 8, 1, 5 :: 64 word] \<noteq> []"
    by simp
  have le: "length [0, 4, 8, 1, 5 :: 64 word] \<le> 2 ^ 31"
    by simp
  note sp = example_solve_phase
  note cf = example_collect_free
  from singleton_phase_never_fails [OF sort_contract_stable_sorter range_contract_insertion_order
      ne le sp cf] sort_contract_stable_sorter range_contract_insertion_order ne le sp cf
  show ?thesis by blast
qed

section \<open>Failure of the seed search\<close>

lemma one_le_seed: "(1 :: 64 word) \<le> s \<longleftrightarrow> 0 < s"
  by (auto simp add: word_le_nat_alt word_less_nat_alt)

lemma solve_buckets_step:
  assumes pl: "placed k 0 P values seeds" and rc: "range_contract ord"
    and bh: "\<forall>e\<in>set b. idx e \<noteq> 0 \<and> home (mask k) e = home (mask k) (hd b)"
    and big: "1 < length b"
    and fresh: "home (mask k) (hd b) \<notin> home (mask k) ` P"
  shows "(\<forall>s. 1 \<le> s \<and> s < 2 ^ 31 \<longrightarrow> \<not> seed_ok (mask k) values b s) \<and>
           (\<forall>xs. solve_buckets ord (mask k) (b # xs) values seeds = Inl NoSeed) \<or>
         (\<exists>seed values'. 1 \<le> seed \<and> seed < 2 ^ 31 \<and> seed_ok (mask k) values b seed \<and>
            placed k 0 (P \<union> set b) values' (seeds[home (mask k) (hd b) := ucast seed]) \<and>
            (\<forall>xs. solve_buckets ord (mask k) (b # xs) values seeds =
               solve_buckets ord (mask k) xs values' (seeds[home (mask k) (hd b) := ucast seed])))"
proof -
  let ?i0 = "home (mask k) (hd b)"
  have len: "length values = 2 ^ k" "length seeds = 2 ^ k"
    using pl by (simp_all add: placed_def)
  have rng: "\<forall>x :: 64 word. unat (x AND mask k) < length values"
    by (simp add: len slot_lt)
  have nz: "\<forall>e\<in>set b. idx e \<noteq> 0"
    using bh by simp
  have i0: "?i0 < 2 ^ k"
    by (rule home_lt)
  have z: "(0 :: 64 word) < 2 ^ 31"
    by simp
  note ss = seed_search_char [OF rng nz z]
  show ?thesis
  proof (cases "seed_search (mask k) values b 0")
    case (Inl e)
    with ss have e: "e = NoSeed"
      and no: "\<forall>s. 0 < s \<and> s < 2 ^ 31 \<longrightarrow> \<not> seed_ok (mask k) values b s"
      by simp_all
    have "solve_buckets ord (mask k) (b # xs) values seeds = Inl NoSeed" for xs
      using Inl e big by simp
    with no show ?thesis
      by (simp add: one_le_seed)
  next
    case (Inr r)
    obtain seed entries where r: "r = (seed, entries)" by (cases r)
    from ss Inr r have seed: "seed < 2 ^ 31" "seed_ok (mask k) values b seed" and pos: "0 < seed"
      and entries: "entries = map (\<lambda>e. (slot_of (mask k) seed e, idx e)) b"
      by simp_all
    from solve_step [OF pl rc bh i0 fresh seed] obtain values' where
      c: "commit (ord entries) values = Inr values'"
      and pl': "placed k 0 (P \<union> set b) values' (seeds[?i0 := ucast seed])"
      unfolding entries by blast
    have "solve_buckets ord (mask k) (b # xs) values seeds =
        solve_buckets ord (mask k) xs values' (seeds[?i0 := ucast seed])" for xs
      using big Inr r c i0 len by (simp add: Let_def home_def)
    with seed pos pl' show ?thesis
      by (auto simp add: one_le_seed)
  qed
qed

lemma solve_buckets_NoSeed_iff:
  assumes rc: "range_contract ord"
  shows "placed k 0 P values seeds \<Longrightarrow>
    \<forall>b\<in>set bs. \<forall>e\<in>set b. idx e \<noteq> 0 \<and> home (mask k) e = home (mask k) (hd b) \<Longrightarrow>
    distinct (map (\<lambda>b. home (mask k) (hd b)) (filter (\<lambda>b. b \<noteq> []) bs)) \<Longrightarrow>
    home (mask k) ` P \<inter> (\<lambda>b. home (mask k) (hd b)) ` {b \<in> set bs. b \<noteq> []} = {} \<Longrightarrow>
    solve_buckets ord (mask k) bs values seeds = Inl NoSeed \<longleftrightarrow>
      (\<exists>pre b post values' seeds'. bs = pre @ b # post \<and> 1 < length b \<and>
         solve_buckets ord (mask k) pre values seeds = Inr ([], values', seeds') \<and>
         (\<forall>s. 1 \<le> s \<and> s < 2 ^ 31 \<longrightarrow> \<not> seed_ok (mask k) values' b s))"
    (is "_ \<Longrightarrow> _ \<Longrightarrow> _ \<Longrightarrow> _ \<Longrightarrow> ?L bs values seeds \<longleftrightarrow> ?R bs values seeds")
proof (induction bs arbitrary: P "values" seeds)
  case Nil
  show ?case by simp
next
  case (Cons b bs)
  show ?case
  proof (cases "1 < length b")
    case False
    have "\<not> ?R (b # bs) values seeds"
    proof
      assume "?R (b # bs) values seeds"
      then obtain pre b' post v' s' where r: "b # bs = pre @ b' # post" "1 < length b'"
        "solve_buckets ord (mask k) pre values seeds = Inr ([], v', s')"
        by blast
      show False
      proof (cases pre)
        case Nil
        with r(1,2) False show False by simp
      next
        case (Cons p pre')
        with r(1) have "p = b" by simp
        with r(3) Cons False show False by simp
      qed
    qed
    with False show ?thesis by simp
  next
    case True
    let ?i0 = "home (mask k) (hd b)"
    have ne: "b \<noteq> []"
      using True by auto
    have bh: "\<forall>e\<in>set b. idx e \<noteq> 0 \<and> home (mask k) e = ?i0"
      using Cons.prems(2) by simp
    have "?i0 \<in> (\<lambda>b. home (mask k) (hd b)) ` {x \<in> set (b # bs). x \<noteq> []}"
      using ne by simp
    with Cons.prems(4) have fresh: "?i0 \<notin> home (mask k) ` P"
      by blast
    from solve_buckets_step [OF Cons.prems(1) rc bh True fresh] show ?thesis
    proof
      assume a: "(\<forall>s. 1 \<le> s \<and> s < 2 ^ 31 \<longrightarrow> \<not> seed_ok (mask k) values b s) \<and>
           (\<forall>xs. solve_buckets ord (mask k) (b # xs) values seeds = Inl NoSeed)"
      then have l: "?L (b # bs) values seeds" by simp
      have "b # bs = [] @ b # bs \<and> 1 < length b \<and>
          solve_buckets ord (mask k) [] values seeds = Inr ([], values, seeds) \<and>
          (\<forall>s. 1 \<le> s \<and> s < 2 ^ 31 \<longrightarrow> \<not> seed_ok (mask k) values b s)"
        using a True by simp
      then have "?R (b # bs) values seeds" by blast
      with l show ?thesis by simp
    next
      assume "\<exists>seed values'. 1 \<le> seed \<and> seed < 2 ^ 31 \<and> seed_ok (mask k) values b seed \<and>
            placed k 0 (P \<union> set b) values' (seeds[?i0 := ucast seed]) \<and>
            (\<forall>xs. solve_buckets ord (mask k) (b # xs) values seeds =
               solve_buckets ord (mask k) xs values' (seeds[?i0 := ucast seed]))"
      then obtain seed v1 where seed: "1 \<le> seed" "seed < 2 ^ 31" "seed_ok (mask k) values b seed"
        and pl': "placed k 0 (P \<union> set b) v1 (seeds[?i0 := ucast seed])"
        and step: "\<And>xs. solve_buckets ord (mask k) (b # xs) values seeds =
               solve_buckets ord (mask k) xs v1 (seeds[?i0 := ucast seed])"
        by blast
      let ?s1 = "seeds[?i0 := ucast seed]"
      have p2: "\<forall>b\<in>set bs. \<forall>e\<in>set b. idx e \<noteq> 0 \<and> home (mask k) e = home (mask k) (hd b)"
        using Cons.prems(2) by simp
      have p3: "distinct (map (\<lambda>b. home (mask k) (hd b)) (filter (\<lambda>b. b \<noteq> []) bs))"
        using Cons.prems(3) by (simp split: if_splits)
      have "hd b \<in> set b"
        using ne by simp
      with bh have hb: "home (mask k) ` set b = {?i0}"
        by blast
      have "distinct (?i0 # map (\<lambda>b. home (mask k) (hd b)) (filter (\<lambda>b. b \<noteq> []) bs))"
        using Cons.prems(3) ne by simp
      then have "?i0 \<notin> set (map (\<lambda>b. home (mask k) (hd b)) (filter (\<lambda>b. b \<noteq> []) bs))"
        by simp
      then have a: "?i0 \<notin> (\<lambda>b. home (mask k) (hd b)) ` {b \<in> set bs. b \<noteq> []}"
        by simp
      have "{b' \<in> set bs. b' \<noteq> []} \<subseteq> {x \<in> set (b # bs). x \<noteq> []}"
        by auto
      with Cons.prems(4) have "home (mask k) ` P \<inter>
          (\<lambda>b. home (mask k) (hd b)) ` {b \<in> set bs. b \<noteq> []} = {}"
        by blast
      with a have p4: "home (mask k) ` (P \<union> set b) \<inter>
          (\<lambda>b. home (mask k) (hd b)) ` {b \<in> set bs. b \<noteq> []} = {}"
        unfolding image_Un hb by blast
      note IH = Cons.IH [OF pl' p2 p3 p4]
      have l: "?L (b # bs) values seeds \<longleftrightarrow> ?L bs v1 ?s1"
        using step [of bs] by simp
      have r: "?R (b # bs) values seeds \<longleftrightarrow> ?R bs v1 ?s1"
      proof
        assume "?R bs v1 ?s1"
        then obtain pre b' post v' s' where x: "bs = pre @ b' # post" "1 < length b'"
          "solve_buckets ord (mask k) pre v1 ?s1 = Inr ([], v', s')"
          "\<forall>s. 1 \<le> s \<and> s < 2 ^ 31 \<longrightarrow> \<not> seed_ok (mask k) v' b' s"
          by blast
        have "b # bs = (b # pre) @ b' # post \<and> 1 < length b' \<and>
            solve_buckets ord (mask k) (b # pre) values seeds = Inr ([], v', s') \<and>
            (\<forall>s. 1 \<le> s \<and> s < 2 ^ 31 \<longrightarrow> \<not> seed_ok (mask k) v' b' s)"
          using x step [of pre] by simp
        then show "?R (b # bs) values seeds" by blast
      next
        assume "?R (b # bs) values seeds"
        then obtain pre b' post v' s' where x: "b # bs = pre @ b' # post" "1 < length b'"
          "solve_buckets ord (mask k) pre values seeds = Inr ([], v', s')"
          "\<forall>s. 1 \<le> s \<and> s < 2 ^ 31 \<longrightarrow> \<not> seed_ok (mask k) v' b' s"
          by blast
        show "?R bs v1 ?s1"
        proof (cases pre)
          case Nil
          with x(1,3) have "b' = b" "v' = values" by simp_all
          with x(4) seed show ?thesis by blast
        next
          case (Cons p pre')
          with x(1) have pb: "p = b" "bs = pre' @ b' # post" by simp_all
          have "solve_buckets ord (mask k) pre' v1 ?s1 = Inr ([], v', s')"
            using x(3) step [of pre'] unfolding Cons pb(1) by simp
          with pb(2) x(2,4) show ?thesis by blast
        qed
      qed
      from l r IH show ?thesis by simp
    qed
  qed
qed

lemma seed_search_least:
  assumes rng: "\<forall>x :: 64 word. unat (x AND msk) < length values"
    and nz: "\<forall>e\<in>set subkeys. idx e \<noteq> 0"
  shows "seed_search msk values subkeys 0 = Inr (seed, entries) \<longleftrightarrow>
           1 \<le> seed \<and> seed < 2 ^ 31 \<and> seed_ok msk values subkeys seed \<and>
           (\<forall>s. 1 \<le> s \<and> s < seed \<longrightarrow> \<not> seed_ok msk values subkeys s) \<and>
           entries = map (\<lambda>e. (slot_of msk seed e, idx e)) subkeys"
    and "seed_search msk values subkeys 0 = Inl NoSeed \<longleftrightarrow>
           (\<forall>s. 1 \<le> s \<and> s < 2 ^ 31 \<longrightarrow> \<not> seed_ok msk values subkeys s)"
proof -
  have z: "(0 :: 64 word) < 2 ^ 31"
    by simp
  note ss = seed_search_char [OF rng nz z]
  show "seed_search msk values subkeys 0 = Inr (seed, entries) \<longleftrightarrow>
           1 \<le> seed \<and> seed < 2 ^ 31 \<and> seed_ok msk values subkeys seed \<and>
           (\<forall>s. 1 \<le> s \<and> s < seed \<longrightarrow> \<not> seed_ok msk values subkeys s) \<and>
           entries = map (\<lambda>e. (slot_of msk seed e, idx e)) subkeys"
  proof
    assume "seed_search msk values subkeys 0 = Inr (seed, entries)"
    with ss show "1 \<le> seed \<and> seed < 2 ^ 31 \<and> seed_ok msk values subkeys seed \<and>
           (\<forall>s. 1 \<le> s \<and> s < seed \<longrightarrow> \<not> seed_ok msk values subkeys s) \<and>
           entries = map (\<lambda>e. (slot_of msk seed e, idx e)) subkeys"
      by (simp add: one_le_seed)
  next
    assume a: "1 \<le> seed \<and> seed < 2 ^ 31 \<and> seed_ok msk values subkeys seed \<and>
           (\<forall>s. 1 \<le> s \<and> s < seed \<longrightarrow> \<not> seed_ok msk values subkeys s) \<and>
           entries = map (\<lambda>e. (slot_of msk seed e, idx e)) subkeys"
    show "seed_search msk values subkeys 0 = Inr (seed, entries)"
    proof (cases "seed_search msk values subkeys 0")
      case (Inl e)
      with ss a show ?thesis
        by (auto simp add: one_le_seed)
    next
      case (Inr r)
      obtain sd es where r: "r = (sd, es)" by (cases r)
      from ss Inr r have b: "0 < sd" "sd < 2 ^ 31" "seed_ok msk values subkeys sd"
        "es = map (\<lambda>e. (slot_of msk sd e, idx e)) subkeys"
        "\<forall>s. 0 < s \<and> s < sd \<longrightarrow> \<not> seed_ok msk values subkeys s"
        by simp_all
      have "\<not> sd < seed"
        using a b(1,3) by (auto simp add: one_le_seed)
      moreover have "\<not> seed < sd"
        using a b(5) by (auto simp add: one_le_seed)
      ultimately have "sd = seed"
        by simp
      with a b(4) Inr r show ?thesis by simp
    qed
  qed
  show "seed_search msk values subkeys 0 = Inl NoSeed \<longleftrightarrow>
           (\<forall>s. 1 \<le> s \<and> s < 2 ^ 31 \<longrightarrow> \<not> seed_ok msk values subkeys s)"
  proof (cases "seed_search msk values subkeys 0")
    case (Inl e)
    with ss show ?thesis
      by (simp add: one_le_seed)
  next
    case (Inr r)
    obtain sd es where r: "r = (sd, es)" by (cases r)
    from ss Inr r have "0 < sd" "sd < 2 ^ 31" "seed_ok msk values subkeys sd"
      by simp_all
    then have "\<not> (\<forall>s. 1 \<le> s \<and> s < 2 ^ 31 \<longrightarrow> \<not> seed_ok msk values subkeys s)"
      by (auto simp add: one_le_seed)
    with Inr show ?thesis by simp
  qed
qed

lemma NewUint64_NoSeed_iff:
  assumes sc: "sort_contract sorter" and rc: "range_contract ord"
  shows "NewUint64 sorter ord keys = Inl NoSeed \<longleftrightarrow>
     keys \<noteq> [] \<and> length keys \<le> 2 ^ 31 \<and> distinct keys \<and> solve_phase sorter ord keys = Inl NoSeed"
proof
  assume f: "NewUint64 sorter ord keys = Inl NoSeed"
  have ne: "keys \<noteq> []"
    using f by (auto simp add: NewUint64_def)
  have le: "length keys \<le> 2 ^ 31"
    using f ne unfolding NewUint64_def by (simp split: if_splits)
  have "find_dup (sort keys) = None"
    using f ne le unfolding NewUint64_def by (simp split: option.splits)
  then have d: "distinct keys"
    by (simp add: find_dup_sort)
  from NewUint64_cases [OF sc rc ne le d] f have "solve_phase sorter ord keys = Inl NoSeed"
    by auto
  with ne le d show "keys \<noteq> [] \<and> length keys \<le> 2 ^ 31 \<and> distinct keys \<and>
      solve_phase sorter ord keys = Inl NoSeed"
    by simp
next
  assume a: "keys \<noteq> [] \<and> length keys \<le> 2 ^ 31 \<and> distinct keys \<and>
      solve_phase sorter ord keys = Inl NoSeed"
  then have "find_dup (sort keys) = None"
    by (simp add: find_dup_sort)
  with a show "NewUint64 sorter ord keys = Inl NoSeed"
    unfolding NewUint64_def by simp
qed

lemma build_fails_iff:
  assumes sc: "sort_contract sorter" and rc: "range_contract ord"
  shows "NewUint64 sorter ord keys = Inl NoSeed \<longleftrightarrow>
     keys \<noteq> [] \<and> length keys \<le> 2 ^ 31 \<and> distinct keys \<and>
     (\<exists>h pre b post values seeds.
        fill_buckets (build_mask keys) 0 keys (replicate (nextPower2 (length keys)) []) = Inr h \<and>
        sorter h = pre @ b # post \<and> 1 < length b \<and>
        solve_buckets ord (build_mask keys) pre (replicate (nextPower2 (length keys)) 0)
          (replicate (nextPower2 (length keys)) 0) = Inr ([], values, seeds) \<and>
        (\<forall>s. 1 \<le> s \<and> s < 2 ^ 31 \<longrightarrow> \<not> seed_ok (build_mask keys) values b s))"
    (is "?L \<longleftrightarrow> ?ne \<and> ?le \<and> ?d \<and> ?R")
proof -
  have "solve_phase sorter ord keys = Inl NoSeed \<longleftrightarrow> ?R" if ne: "keys \<noteq> []" and le: "length keys \<le> 2 ^ 31"
  proof -
    from build_shape [OF ne le] obtain k where k: "k \<le> 31" "nextPower2 (length keys) = 2 ^ k"
      "build_mask keys = mask k"
      and sp: "solve_phase sorter ord keys =
        solve_buckets ord (mask k) (sorter (bucket_table (mask k) (2 ^ k) (entries_from 0 keys)))
          (replicate (2 ^ k) 0) (replicate (2 ^ k) 0)"
      by blast
    let ?bt = "bucket_table (mask k) (2 ^ k) (entries_from 0 keys)"
    have fb: "fill_buckets (mask k) 0 keys (replicate (2 ^ k) []) = Inr ?bt"
      by (rule fill_buckets_table [OF k(1)])
    note f = sorted_buckets_facts [OF sc le, of k]
    have e: "home (mask k) ` {} \<inter> (\<lambda>b. home (mask k) (hd b)) ` {b \<in> set (sorter ?bt). b \<noteq> []} = {}"
      by simp
    note iff = solve_buckets_NoSeed_iff [OF rc placed_empty f(1) f(2) e]
    show ?thesis
      unfolding sp iff k(2,3) fb by auto
  qed
  with NewUint64_NoSeed_iff [OF sc rc, of keys] show ?thesis
    by blast
qed

text \<open>
  Claim C6. For a bucket whose slots are in range and whose members have a non-zero
  \<open>idx\<close> (as in every call from \<open>NewUint64\<close>), the search started at \<open>seed = 0\<close> returns
  \<open>seed\<close> exactly when \<open>seed\<close> is the least value in \<open>[1, 2^31)\<close> that \<open>seed_ok\<close> accepts
  (pairwise distinct slots, none permanently occupied), with the scratch map holding
  \<open>slot \<mapsto> idx\<close> for every member; it fails exactly when no value in \<open>[1, 2^31)\<close> is
  accepted. And \<open>NewUint64\<close> fails with \<open>no seed < 2^31\<close> exactly when, on a valid input, the
  multi-key loop reaches a bucket \<open>b\<close> (after committing the buckets \<open>pre\<close> before it) for
  which no seed in \<open>[1, 2^31)\<close> is accepted.
\<close>

theorem seed_search_first_fit:
  assumes "sort_contract sorter" and "range_contract ord"
  shows "((\<forall>x :: 64 word. unat (x AND msk) < length values) \<and> (\<forall>e\<in>set subkeys. idx e \<noteq> 0) \<longrightarrow>
       (seed_search msk values subkeys 0 = Inr (seed, entries) \<longleftrightarrow>
          1 \<le> seed \<and> seed < 2 ^ 31 \<and> seed_ok msk values subkeys seed \<and>
          (\<forall>s. 1 \<le> s \<and> s < seed \<longrightarrow> \<not> seed_ok msk values subkeys s) \<and>
          entries = map (\<lambda>e. (slot_of msk seed e, idx e)) subkeys) \<and>
       (seed_search msk values subkeys 0 = Inl NoSeed \<longleftrightarrow>
          (\<forall>s. 1 \<le> s \<and> s < 2 ^ 31 \<longrightarrow> \<not> seed_ok msk values subkeys s))) \<and>
     (NewUint64 sorter ord keys = Inl NoSeed \<longleftrightarrow>
        keys \<noteq> [] \<and> length keys \<le> 2 ^ 31 \<and> distinct keys \<and>
        (\<exists>h pre b post values seeds.
           fill_buckets (build_mask keys) 0 keys (replicate (nextPower2 (length keys)) []) = Inr h \<and>
           sorter h = pre @ b # post \<and> 1 < length b \<and>
           solve_buckets ord (build_mask keys) pre (replicate (nextPower2 (length keys)) 0)
             (replicate (nextPower2 (length keys)) 0) = Inr ([], values, seeds) \<and>
           (\<forall>s. 1 \<le> s \<and> s < 2 ^ 31 \<longrightarrow> \<not> seed_ok (build_mask keys) values b s)))"
proof -
  have a: "(seed_search msk values subkeys 0 = Inr (seed, entries) \<longleftrightarrow>
          1 \<le> seed \<and> seed < 2 ^ 31 \<and> seed_ok msk values subkeys seed \<and>
          (\<forall>s. 1 \<le> s \<and> s < seed \<longrightarrow> \<not> seed_ok msk values subkeys s) \<and>
          entries = map (\<lambda>e. (slot_of msk seed e, idx e)) subkeys) \<and>
       (seed_search msk values subkeys 0 = Inl NoSeed \<longleftrightarrow>
          (\<forall>s. 1 \<le> s \<and> s < 2 ^ 31 \<longrightarrow> \<not> seed_ok msk values subkeys s))"
    if "(\<forall>x :: 64 word. unat (x AND msk) < length values) \<and> (\<forall>e\<in>set subkeys. idx e \<noteq> 0)"
  proof -
    from that have r: "\<forall>x :: 64 word. unat (x AND msk) < length values"
      and n: "\<forall>e\<in>set subkeys. idx e \<noteq> 0"
      by simp_all
    from seed_search_least(1) [OF r n, of seed entries] seed_search_least(2) [OF r n]
    show ?thesis by (rule conjI)
  qed
  show ?thesis
  proof (rule conjI)
    show "(\<forall>x :: 64 word. unat (x AND msk) < length values) \<and> (\<forall>e\<in>set subkeys. idx e \<noteq> 0) \<longrightarrow>
       (seed_search msk values subkeys 0 = Inr (seed, entries) \<longleftrightarrow>
          1 \<le> seed \<and> seed < 2 ^ 31 \<and> seed_ok msk values subkeys seed \<and>
          (\<forall>s. 1 \<le> s \<and> s < seed \<longrightarrow> \<not> seed_ok msk values subkeys s) \<and>
          entries = map (\<lambda>e. (slot_of msk seed e, idx e)) subkeys) \<and>
       (seed_search msk values subkeys 0 = Inl NoSeed \<longleftrightarrow>
          (\<forall>s. 1 \<le> s \<and> s < 2 ^ 31 \<longrightarrow> \<not> seed_ok msk values subkeys s))"
      by (rule impI) (rule a)
  qed (rule build_fails_iff [OF assms])
qed

theorem seed_search_first_fit_witness:
  "sort_contract stable_sorter \<and> range_contract insertion_order \<and>
   (\<forall>x :: 64 word. unat (x AND 7) < length [0, 0, 0, 0, 0, 0, 0, 0 :: 32 word]) \<and>
   idx \<lparr>idx = 1, hash = 0\<rparr> \<noteq> 0 \<and> idx \<lparr>idx = 3, hash = 8\<rparr> \<noteq> 0 \<and>
   seed_search 7 [0, 0, 0, 0, 0, 0, 0, 0] [\<lparr>idx = 1, hash = 0\<rparr>, \<lparr>idx = 3, hash = 8\<rparr>] 0 =
     Inr (1, [(5, 1), (7, 3)]) \<and>
   seed_ok 7 [0, 0, 0, 0, 0, 0, 0, 0] [\<lparr>idx = 1, hash = 0\<rparr>, \<lparr>idx = 3, hash = 8\<rparr>] 1 \<and>
   [(5, 1), (7, 3)] =
     map (\<lambda>e. (slot_of 7 1 e, idx e)) [\<lparr>idx = 1, hash = 0\<rparr>, \<lparr>idx = 3, hash = 8\<rparr>] \<and>
   NewUint64 stable_sorter insertion_order [0, 9223372036854775808] = Inl NoSeed \<and>
   (\<exists>h pre b post values seeds.
      fill_buckets (build_mask [0, 9223372036854775808]) 0 [0, 9223372036854775808]
        (replicate (nextPower2 (length [0, 9223372036854775808 :: 64 word])) []) = Inr h \<and>
      stable_sorter h = pre @ b # post \<and> 1 < length b \<and>
      solve_buckets insertion_order (build_mask [0, 9223372036854775808]) pre
        (replicate (nextPower2 (length [0, 9223372036854775808 :: 64 word])) 0)
        (replicate (nextPower2 (length [0, 9223372036854775808 :: 64 word])) 0) = Inr ([], values, seeds) \<and>
      (\<forall>s. 1 \<le> s \<and> s < 2 ^ 31 \<longrightarrow> \<not> seed_ok (build_mask [0, 9223372036854775808]) values b s))"
proof -
  let ?b = "[\<lparr>idx = 1, hash = 0\<rparr>, \<lparr>idx = 3, hash = 8\<rparr>]"
  let ?z = "[0, 0, 0, 0, 0, 0, 0, 0 :: 32 word]"
  have rng: "\<forall>x :: 64 word. unat (x AND 7) < length ?z"
  proof
    fix x :: "64 word"
    have "unat (x AND mask 3) < 2 ^ 3"
      by (rule slot_lt)
    then show "unat (x AND 7) < length ?z"
      by (simp add: mask_eq_exp_minus_1)
  qed
  have nz: "\<forall>e\<in>set ?b. idx e \<noteq> 0"
    by simp
  have ss: "seed_search 7 ?z ?b 0 = Inr (1, [(5, 1), (7, 3)])"
    by code_simp
  note t = seed_search_first_fit [OF sort_contract_stable_sorter range_contract_insertion_order,
      of 7 ?z ?b 1 "[(5, 1), (7, 3)]" "[0, 9223372036854775808]"]
  from t rng nz ss have ok: "seed_ok 7 ?z ?b 1"
    and es: "[(5, 1), (7, 3)] = map (\<lambda>e. (slot_of 7 1 e, idx e)) ?b"
    by blast+
  from t no_seed_example have "\<exists>h pre b post values seeds.
      fill_buckets (build_mask [0, 9223372036854775808]) 0 [0, 9223372036854775808]
        (replicate (nextPower2 (length [0, 9223372036854775808 :: 64 word])) []) = Inr h \<and>
      stable_sorter h = pre @ b # post \<and> 1 < length b \<and>
      solve_buckets insertion_order (build_mask [0, 9223372036854775808]) pre
        (replicate (nextPower2 (length [0, 9223372036854775808 :: 64 word])) 0)
        (replicate (nextPower2 (length [0, 9223372036854775808 :: 64 word])) 0) = Inr ([], values, seeds) \<and>
      (\<forall>s. 1 \<le> s \<and> s < 2 ^ 31 \<longrightarrow> \<not> seed_ok (build_mask [0, 9223372036854775808]) values b s)"
    by blast
  with sort_contract_stable_sorter range_contract_insertion_order rng ss ok es no_seed_example
  show ?thesis by simp
qed

section \<open>The duplicate check and the kinds of error\<close>

lemma fill_buckets_error: "fill_buckets msk n ks h = Inl e \<Longrightarrow> e = IndexOutOfRange"
  by (induction ks arbitrary: n h) (auto simp add: Let_def split: if_splits)

lemma try_seed_error: "try_seed msk values seed ks entries = Inl e \<Longrightarrow> e = IndexOutOfRange"
  by (induction ks arbitrary: entries) (auto simp add: Let_def split: if_splits)

lemma seed_search_error:
  "seed_search msk values subkeys seed = Inl e \<Longrightarrow> e = NoSeed \<or> e = IndexOutOfRange"
proof (induction msk "values" subkeys seed rule: seed_search.induct)
  case (1 msk vals subkeys seed)
  show ?case
  proof (cases "(2 ^ 31 :: 64 word) \<le> seed + 1")
    case True
    with "1.prems" show ?thesis
      by (subst (asm) seed_search.simps) (simp add: Let_def)
  next
    case False
    show ?thesis
    proof (cases "try_seed msk vals (seed + 1) subkeys []")
      case (Inl e')
      with "1.prems" False have "e = e'"
        by (subst (asm) seed_search.simps) (simp add: Let_def)
      with Inl try_seed_error show ?thesis by blast
    next
      case (Inr r)
      show ?thesis
      proof (cases r)
        case None
        with "1.prems" False Inr have "seed_search msk vals subkeys (seed + 1) = Inl e"
          by (subst (asm) seed_search.simps) (simp add: Let_def)
        from "1.IH" [OF refl False Inr None this] show ?thesis .
      next
        case (Some es)
        with "1.prems" False Inr show ?thesis
          by (subst (asm) seed_search.simps) (simp add: Let_def)
      qed
    qed
  qed
qed

lemma commit_error: "commit es values = Inl e \<Longrightarrow> e = IndexOutOfRange"
  by (simp add: commit_fold split: if_splits)

lemma solve_buckets_error:
  "solve_buckets ord msk bs values seeds = Inl e \<Longrightarrow> e = NoSeed \<or> e = IndexOutOfRange"
proof (induction bs arbitrary: "values" seeds)
  case Nil
  then show ?case by simp
next
  case (Cons b bs)
  from Cons.prems show ?case
    by (auto simp add: Let_def split: if_splits sum.splits prod.splits
        dest: seed_search_error commit_error Cons.IH)
qed

lemma place_singletons_error:
  "place_singletons msk rest free values seeds = Inl e \<Longrightarrow> e = IndexOutOfRange"
proof (induction rest arbitrary: free "values" seeds)
  case Nil
  then show ?case by simp
next
  case (Cons b rest)
  from Cons.prems show ?case
    by (auto simp add: Let_def split: if_splits list.splits dest: Cons.IH)
qed

lemma solve_phase_error:
  "solve_phase sorter ord keys = Inl e \<Longrightarrow> e = NoSeed \<or> e = IndexOutOfRange"
  unfolding solve_phase_def Let_def
  by (auto split: sum.splits dest: fill_buckets_error solve_buckets_error)

lemma NewUint64_DuplicateHash:
  "NewUint64 sorter ord keys = Inl (DuplicateHash d) \<longleftrightarrow>
     keys \<noteq> [] \<and> length keys \<le> 2 ^ 31 \<and> find_dup (sort keys) = Some d"
  unfolding NewUint64_def
  by (auto split: option.splits sum.splits prod.splits
      dest: solve_phase_error place_singletons_error)

lemma find_dup_count: "find_dup xs = Some d \<Longrightarrow> 2 \<le> count_list xs d"
  by (induction xs rule: find_dup.induct) (auto split: if_splits)

lemma find_dup_sort_count: "find_dup (sort keys) = Some d \<Longrightarrow> 2 \<le> count_list keys d"
proof -
  assume "find_dup (sort keys) = Some d"
  then have "2 \<le> count_list (sort keys) d"
    by (rule find_dup_count)
  also have "count_list (sort keys) d = count_list keys d"
    by (rule mset_eq_length_filter) simp
  finally show ?thesis .
qed

text \<open>
  Claim C5. On a non-empty input of at most \<open>2^31\<close> fingerprints, \<open>NewUint64\<close> fails with
  the duplicate error exactly when two input fingerprints are equal; the fingerprint it
  reports occurs at least twice in the input; no table is returned then. The check runs
  on \<open>sort keys\<close>, the sorted copy \<open>tmp\<close>; the bucketer receives \<open>keys\<close> itself, so on
  distinct input the ordinals of a returned table follow the caller's order.
\<close>

theorem duplicate_key_error:
  assumes "keys \<noteq> []" and "length keys \<le> 2 ^ 31"
  shows "((\<exists>d. NewUint64 sorter ord keys = Inl (DuplicateHash d)) \<longleftrightarrow> \<not> distinct keys) \<and>
     (\<forall>d. NewUint64 sorter ord keys = Inl (DuplicateHash d) \<longrightarrow> 2 \<le> count_list keys d) \<and>
     (\<not> distinct keys \<longrightarrow> (\<forall>t. NewUint64 sorter ord keys \<noteq> Inr t)) \<and>
     (sort_contract sorter \<and> range_contract ord \<and> distinct keys \<longrightarrow>
        (\<forall>t i. NewUint64 sorter ord keys = Inr t \<and> i < length keys \<longrightarrow>
           Query t (keys ! i) = Inr (of_nat i)))"
proof -
  note dh = NewUint64_DuplicateHash [of sorter ord keys]
  have a: "(\<exists>d. NewUint64 sorter ord keys = Inl (DuplicateHash d)) \<longleftrightarrow> \<not> distinct keys"
  proof -
    have "(\<exists>d. find_dup (sort keys) = Some d) \<longleftrightarrow> \<not> distinct keys"
      using find_dup_sort [of keys] by auto
    with assms show ?thesis
      unfolding dh by simp
  qed
  have b: "2 \<le> count_list keys d" if "NewUint64 sorter ord keys = Inl (DuplicateHash d)" for d
    using that find_dup_sort_count unfolding dh by blast
  have c: "NewUint64 sorter ord keys \<noteq> Inr t" if "\<not> distinct keys" for t
    using that a by auto
  have d: "Query t (keys ! i) = Inr (of_nat i)"
    if "sort_contract sorter" "range_contract ord" "NewUint64 sorter ord keys = Inr t" "i < length keys"
    for t i
  proof -
    from NewUint64_Inr_placed [OF that(1,2) assms(1) that(3)] obtain k where
      m: "Mask t = mask k" and pl: "placed k 1 (set (entries_from 0 keys)) (Values t) (Seeds t)"
      by blast
    show ?thesis
      using placed_query_slot(3) [OF pl m] placed_member [OF pl that(4)] by simp
  qed
  from a b c d show ?thesis by blast
qed

lemma duplicate_example: "NewUint64 stable_sorter insertion_order [5, 3, 5] = Inl (DuplicateHash 5)"
proof -
  have "find_dup (sort [5, 3, 5 :: 64 word]) = Some 5"
    by code_simp
  then show ?thesis
    unfolding NewUint64_DuplicateHash by simp
qed

theorem duplicate_key_error_witness:
  "[5, 3, 5 :: 64 word] \<noteq> [] \<and> length [5, 3, 5 :: 64 word] \<le> 2 ^ 31 \<and>
   \<not> distinct [5, 3, 5 :: 64 word] \<and>
   (\<exists>d. NewUint64 stable_sorter insertion_order [5, 3, 5] = Inl (DuplicateHash d)) \<and>
   NewUint64 stable_sorter insertion_order [5, 3, 5] = Inl (DuplicateHash 5) \<and>
   2 \<le> count_list [5, 3, 5 :: 64 word] 5"
proof -
  have ne: "[5, 3, 5 :: 64 word] \<noteq> []"
    by simp
  have le: "length [5, 3, 5 :: 64 word] \<le> 2 ^ 31"
    by simp
  have nd: "\<not> distinct [5, 3, 5 :: 64 word]"
    by simp
  note t = duplicate_key_error [OF ne le, of stable_sorter insertion_order]
  from t nd have "\<exists>d. NewUint64 stable_sorter insertion_order [5, 3, 5] = Inl (DuplicateHash d)"
    by blast
  moreover from t duplicate_example have "2 \<le> count_list [5, 3, 5 :: 64 word] 5"
    by blast
  ultimately show ?thesis
    using ne le nd duplicate_example by blast
qed

end
